theory Spec2Isabelle
  imports Complex_Main
begin

section \<open>Long-delay timers of ts-timeout (src/index.ts): the embedding\<close>

text \<open>
  The module offers \<^verbatim>\<open>setTimeout\<close>, \<^verbatim>\<open>setInterval\<close>, \<^verbatim>\<open>clearTimeout\<close>,
  \<^verbatim>\<open>clearInterval\<close> and \<^verbatim>\<open>delay\<close> on top of the platform's bounded timer.
  A world holds the platform (clock, table of pending native timers), the handle object
  of the one logical timer under study together with the variables its closures capture,
  one abort signal and one promise. Every source function becomes a function on worlds;
  what runs asynchronously in the source (the arrow functions handed to
  \<^verbatim>\<open>globalThis.setTimeout\<close>, the abort listeners) runs when the environment
  delivers the matching event.
\<close>

subsection \<open>JavaScript numbers\<close>

text \<open>
  A number is a finite value, one of the two infinities or NaN. Finite values are exact
  rationals: rounding, overflow to an infinity and the sign of zero are not modelled.
  The sums and differences below are therefore those of the source wherever the source
  computes them without rounding, as it does on integers of magnitude up to \<open>2^53\<close>.
\<close>

datatype jsnum = Fin rat | PInf | NInf | NaN

definition MAX_TIMEOUT :: rat where
  "MAX_TIMEOUT = 2147483647"

definition MAX_SAFE_INTEGER :: rat where
  "MAX_SAFE_INTEGER = 9007199254740991"

fun isFinite :: "jsnum \<Rightarrow> bool" where
  "isFinite (Fin q) = True"
| "isFinite x = False"

fun js_lt :: "jsnum \<Rightarrow> jsnum \<Rightarrow> bool" where
  "js_lt NaN y = False"
| "js_lt x NaN = False"
| "js_lt (Fin a) (Fin b) = (a < b)"
| "js_lt PInf y = False"
| "js_lt x PInf = True"
| "js_lt x NInf = False"
| "js_lt NInf y = True"

definition js_gt :: "jsnum \<Rightarrow> jsnum \<Rightarrow> bool" where
  "js_gt x y = js_lt y x"

definition js_le :: "jsnum \<Rightarrow> jsnum \<Rightarrow> bool" where
  "js_le x y = (x \<noteq> NaN \<and> y \<noteq> NaN \<and> \<not> js_lt y x)"

fun js_add :: "jsnum \<Rightarrow> jsnum \<Rightarrow> jsnum" where
  "js_add NaN y = NaN"
| "js_add x NaN = NaN"
| "js_add (Fin a) (Fin b) = Fin (a + b)"
| "js_add PInf NInf = NaN"
| "js_add NInf PInf = NaN"
| "js_add PInf y = PInf"
| "js_add x PInf = PInf"
| "js_add NInf y = NInf"
| "js_add x NInf = NInf"

fun js_neg :: "jsnum \<Rightarrow> jsnum" where
  "js_neg (Fin a) = Fin (- a)"
| "js_neg PInf = NInf"
| "js_neg NInf = PInf"
| "js_neg NaN = NaN"

definition js_sub :: "jsnum \<Rightarrow> jsnum \<Rightarrow> jsnum" where
  "js_sub x y = js_add x (js_neg y)"

text \<open>\<^verbatim>\<open>Math.max(a, b)\<close>: NaN if either argument is NaN, else the larger one.\<close>

definition Math_max :: "jsnum \<Rightarrow> jsnum \<Rightarrow> jsnum" where
  "Math_max a b = (if a = NaN \<or> b = NaN then NaN else if js_lt a b then b else a)"

subsection \<open>Values, functions, errors\<close>

text \<open>
  What a user callback does when it runs is a list of actions: it may take time, and it
  may call the public operations on the handle or abort the signal.
\<close>

datatype action = Elapse rat | Clear | Abort | Ref | Unref

text \<open>
  Function values: a user callback; the wrapper arrow function that \<^verbatim>\<open>setTimeout\<close>
  builds around the callback (it captures whether a signal was given); the arrow function
  that \<^verbatim>\<open>delay\<close> hands to \<^verbatim>\<open>setTimeout\<close> (likewise).
\<close>

datatype fn = User "action list" | Wrapped bool fn | OnDelayFire bool

datatype jsval =
    JUndefined | JNull | JBool bool | JNum jsnum | JStr string
  | JFunc fn | JSignal | JObj "(string \<times> jsval) list"

fun typeof :: "jsval \<Rightarrow> string" where
  "typeof JUndefined = ''undefined''"
| "typeof JNull = ''object''"
| "typeof (JBool b) = ''boolean''"
| "typeof (JNum n) = ''number''"
| "typeof (JStr s) = ''string''"
| "typeof (JFunc f) = ''function''"
| "typeof JSignal = ''object''"
| "typeof (JObj ps) = ''object''"

text \<open>
  \<^verbatim>\<open>key in v\<close> and \<^verbatim>\<open>Object.keys(v)\<close>, used by the source on non-null objects
  only. A plain object has its listed properties; an AbortSignal has no own enumerable
  key and no property named \<^verbatim>\<open>signal\<close>.
\<close>

fun js_in :: "string \<Rightarrow> jsval \<Rightarrow> bool" where
  "js_in k (JObj ps) = (k \<in> set (map fst ps))"
| "js_in k v = False"

fun Object_keys :: "jsval \<Rightarrow> string list" where
  "Object_keys (JObj ps) = remdups (map fst ps)"
| "Object_keys v = []"

text \<open>
  \<^verbatim>\<open>const { signal } = options ?? {}\<close>: whether the options carry the signal. The
  type \<^verbatim>\<open>{ signal?: AbortSignal }\<close> of the options admits an AbortSignal or undefined
  under that key, and this function covers these (and null, which the optional chaining
  of the source treats as undefined). An object that holds anything else under
  \<^verbatim>\<open>signal\<close> is still taken as the options by the test above; the source then reads
  the property \<^verbatim>\<open>aborted\<close> of that value and calls its \<^verbatim>\<open>addEventListener\<close>,
  which is not modelled: here such a value counts as no signal.
\<close>

fun get_signal :: "jsval option \<Rightarrow> bool" where
  "get_signal (Some (JObj ps)) = (map_of ps ''signal'' = Some JSignal)"
| "get_signal v = False"

record js_error =
  name :: string
  message :: string

definition TypeError :: "string \<Rightarrow> js_error" where
  "TypeError m = \<lparr>name = ''TypeError'', message = m\<rparr>"

text \<open>\<^verbatim>\<open>class AbortError extends Error\<close>: the constructor.\<close>

definition AbortError :: "string option \<Rightarrow> js_error" where
  "AbortError m =
     \<lparr>name = ''AbortError'',
      message = (case m of None \<Rightarrow> ''The operation was aborted.'' | Some s \<Rightarrow> s)\<rparr>"

subsection \<open>The world\<close>

text \<open>The four arrow functions the source hands to \<^verbatim>\<open>globalThis.setTimeout\<close>.\<close>

datatype kont = TimeoutFinal | TimeoutCapped | IntervalFinal | IntervalCapped

record native =
  kont :: kont
  issued_at :: rat
  millis :: jsnum
  refed :: bool

text \<open>Which object literal created the handle.\<close>

datatype kind = TimeoutObj | IntervalObj | PreclearedObj

datatype listener = ClearListener | DelayListener

datatype promise_state = NoPromise | Pending | Fulfilled | Rejected js_error

datatype settle = Resolve | Reject js_error

record world =
  now :: rat
  timers :: "(nat \<times> native) list"
  next_id :: nat
  kind :: kind
  handle_id :: "nat option"
  cleared_flag :: bool
  targetTime :: "jsnum option"
  shouldUnref :: bool
  nextTargetTime :: jsnum
  interval_delay :: jsnum
  callback :: fn
  arguments :: "jsval list"
  aborted :: bool
  listeners :: "listener list"
  promise :: promise_state
  calls :: "jsval list list"
  segments :: "jsnum list"
  settled :: "settle list"

text \<open>
  \<open>now\<close> is \<^verbatim>\<open>performance.now()\<close>; \<open>timers\<close> and \<open>next_id\<close> are the platform's
  pending native timers. \<open>handle_id\<close>, \<open>cleared_flag\<close> and \<open>targetTime\<close> are the
  handle's fields \<^verbatim>\<open>id\<close>, \<^verbatim>\<open>_cleared\<close> and \<^verbatim>\<open>_targetTime\<close>; \<open>shouldUnref\<close>,
  \<open>nextTargetTime\<close>, \<open>interval_delay\<close> (the variable \<^verbatim>\<open>delay\<close> of
  \<^verbatim>\<open>setInterval\<close>), \<open>callback\<close> and \<open>arguments\<close> are the captured variables.
  \<open>aborted\<close> and \<open>listeners\<close> are the signal. The last three fields record what
  happened: every invocation of the user callback with its arguments, every span passed
  to \<^verbatim>\<open>globalThis.setTimeout\<close>, every call of \<^verbatim>\<open>resolve\<close> or \<^verbatim>\<open>reject\<close>.
\<close>

definition new_world :: "rat \<Rightarrow> bool \<Rightarrow> world" where
  "new_world t ab =
     \<lparr>now = t, timers = [], next_id = 0, kind = TimeoutObj, handle_id = None,
      cleared_flag = False, targetTime = None, shouldUnref = False,
      nextTargetTime = NaN, interval_delay = NaN, callback = User [], arguments = [],
      aborted = ab, listeners = [], promise = NoPromise,
      calls = [], segments = [], settled = []\<rparr>"

subsection \<open>The platform's native timers\<close>

definition native_setTimeout :: "kont \<Rightarrow> jsnum \<Rightarrow> world \<Rightarrow> nat \<times> world" where
  "native_setTimeout k ms w =
     (next_id w,
      w\<lparr>timers := timers w @ [(next_id w, \<lparr>kont = k, issued_at = now w, millis = ms, refed = True\<rparr>)],
        next_id := Suc (next_id w),
        segments := segments w @ [ms]\<rparr>)"

definition native_clearTimeout :: "nat \<Rightarrow> world \<Rightarrow> world" where
  "native_clearTimeout n w = w\<lparr>timers := filter (\<lambda>e. fst e \<noteq> n) (timers w)\<rparr>"

definition native_set_ref :: "bool \<Rightarrow> nat \<Rightarrow> world \<Rightarrow> world" where
  "native_set_ref b n w =
     w\<lparr>timers := map (\<lambda>e. if fst e = n then (fst e, (snd e)\<lparr>refed := b\<rparr>) else e) (timers w)\<rparr>"

text \<open>A native timer is due once its span has elapsed since it was issued.\<close>

definition due :: "native \<Rightarrow> world \<Rightarrow> bool" where
  "due t w = js_le (js_add (Fin (issued_at t)) (millis t)) (Fin (now w))"

subsection \<open>Handle operations\<close>

datatype timeout_ref = Nullish | NonObject | Unbranded | Handle

fun clearTimeout :: "timeout_ref \<Rightarrow> world \<Rightarrow> world" where
  "clearTimeout Handle w =
     (let w1 = w\<lparr>cleared_flag := True\<rparr>
      in case handle_id w1 of
           Some n \<Rightarrow> (native_clearTimeout n w1)\<lparr>handle_id := None\<rparr>
         | None \<Rightarrow> w1)"
| "clearTimeout r w = w"

definition clearInterval :: "timeout_ref \<Rightarrow> world \<Rightarrow> world" where
  "clearInterval r w = clearTimeout r w"

definition cleared :: "world \<Rightarrow> bool" where
  "cleared w = (case kind w of PreclearedObj \<Rightarrow> True | _ \<Rightarrow> cleared_flag w)"

definition ref :: "world \<Rightarrow> world" where
  "ref w =
     (case kind w of
        PreclearedObj \<Rightarrow> w
      | _ \<Rightarrow> (let w1 = w\<lparr>shouldUnref := False\<rparr>
              in case handle_id w1 of Some n \<Rightarrow> native_set_ref True n w1 | None \<Rightarrow> w1))"

definition unref :: "world \<Rightarrow> world" where
  "unref w =
     (case kind w of
        PreclearedObj \<Rightarrow> w
      | _ \<Rightarrow> (let w1 = w\<lparr>shouldUnref := True\<rparr>
              in case handle_id w1 of Some n \<Rightarrow> native_set_ref False n w1 | None \<Rightarrow> w1))"

definition remaining :: "world \<Rightarrow> jsnum" where
  "remaining w =
     (case kind w of
        PreclearedObj \<Rightarrow> Fin 0
      | TimeoutObj \<Rightarrow>
          if cleared_flag w then Fin 0
          else (case targetTime w of
                  None \<Rightarrow> PInf
                | Some t \<Rightarrow> Math_max (Fin 0) (js_sub t (Fin (now w))))
      | IntervalObj \<Rightarrow>
          if cleared_flag w then Fin 0
          else if \<not> isFinite (nextTargetTime w) then PInf
          else Math_max (Fin 0) (js_sub (nextTargetTime w) (Fin (now w))))"

subsection \<open>Signal and promise\<close>

definition resolve :: "world \<Rightarrow> world" where
  "resolve w =
     w\<lparr>settled := settled w @ [Resolve],
       promise := (if promise w = Pending then Fulfilled else promise w)\<rparr>"

definition reject :: "js_error \<Rightarrow> world \<Rightarrow> world" where
  "reject e w =
     w\<lparr>settled := settled w @ [Reject e],
       promise := (if promise w = Pending then Rejected e else promise w)\<rparr>"

text \<open>The two abort listeners of the source: the one of \<^verbatim>\<open>setTimeout\<close> and the one of \<^verbatim>\<open>delay\<close>.\<close>

fun run_listener :: "listener \<Rightarrow> world \<Rightarrow> world" where
  "run_listener ClearListener w = clearTimeout Handle w"
| "run_listener DelayListener w = reject (AbortError None) (clearTimeout Handle w)"

text \<open>
  \<^verbatim>\<open>controller.abort()\<close>: the first call sets the flag and dispatches the event to the
  registered listeners; all of them were added with \<^verbatim>\<open>once: true\<close>, so they are gone
  afterwards.
\<close>

definition abort :: "world \<Rightarrow> world" where
  "abort w =
     (if aborted w then w
      else fold run_listener (listeners w) (w\<lparr>aborted := True, listeners := []\<rparr>))"

fun act :: "action \<Rightarrow> world \<Rightarrow> world" where
  "act (Elapse d) w = w\<lparr>now := now w + (if d < 0 then 0 else d)\<rparr>"
| "act Clear w = clearTimeout Handle w"
| "act Abort w = abort w"
| "act Ref w = ref w"
| "act Unref w = unref w"

fun invoke :: "fn \<Rightarrow> jsval list \<Rightarrow> world \<Rightarrow> world" where
  "invoke (User body) as w = fold act body (w\<lparr>calls := calls w @ [as]\<rparr>)"
| "invoke (Wrapped sig f) as w =
     invoke f as (if sig then w\<lparr>listeners := remove1 ClearListener (listeners w)\<rparr> else w)"
| "invoke (OnDelayFire sig) as w =
     (let w1 = resolve w
      in if sig then w1\<lparr>listeners := remove1 DelayListener (listeners w1)\<rparr> else w1)"

subsection \<open>The segment scheduler and the repeating driver\<close>

definition assign_id :: "nat \<times> world \<Rightarrow> world" where
  "assign_id r = (snd r)\<lparr>handle_id := Some (fst r)\<rparr>"

definition unref_id :: "world \<Rightarrow> world" where
  "unref_id w = (case handle_id w of Some n \<Rightarrow> native_set_ref False n w | None \<Rightarrow> w)"

text \<open>The closure \<^verbatim>\<open>schedule\<close> of \<^verbatim>\<open>_setTimeout\<close>.\<close>

definition schedule_timeout :: "jsnum \<Rightarrow> world \<Rightarrow> world" where
  "schedule_timeout remainingDelay w =
     (if cleared_flag w then w
      else
        let w1 = (if js_le remainingDelay (Fin MAX_TIMEOUT)
                  then assign_id (native_setTimeout TimeoutFinal remainingDelay w)
                  else assign_id (native_setTimeout TimeoutCapped (Fin MAX_TIMEOUT) w))
        in if shouldUnref w1 then unref_id w1 else w1)"

text \<open>The closure \<^verbatim>\<open>schedule\<close> of \<^verbatim>\<open>setInterval\<close>.\<close>

definition schedule_interval :: "jsnum \<Rightarrow> world \<Rightarrow> world" where
  "schedule_interval remainingDelay w =
     (if cleared_flag w then w
      else
        let w1 = (if js_le remainingDelay (Fin MAX_TIMEOUT)
                  then assign_id (native_setTimeout IntervalFinal remainingDelay w)
                  else assign_id (native_setTimeout IntervalCapped (Fin MAX_TIMEOUT) w))
        in if shouldUnref w1 then unref_id w1 else w1)"

text \<open>What each native callback does when the platform runs it.\<close>

fun run_kont :: "kont \<Rightarrow> world \<Rightarrow> world" where
  "run_kont TimeoutFinal w =
     (if \<not> cleared_flag w then invoke (callback w) (arguments w) w else w)"
| "run_kont TimeoutCapped w =
     (let remaining = Math_max (Fin 0)
            (js_sub (case targetTime w of None \<Rightarrow> Fin 0 | Some t \<Rightarrow> t) (Fin (now w)))
      in schedule_timeout remaining w)"
| "run_kont IntervalFinal w =
     (if cleared_flag w then w
      else
        let w1 = w\<lparr>nextTargetTime := js_add (nextTargetTime w) (interval_delay w)\<rparr>;
            nextDelay = Math_max (Fin 0) (js_sub (nextTargetTime w1) (Fin (now w1)));
            w2 = schedule_interval nextDelay w1
        in invoke (callback w2) (arguments w2) w2)"
| "run_kont IntervalCapped w =
     (let nextDelay = Math_max (Fin 0) (js_sub (nextTargetTime w) (Fin (now w)))
      in schedule_interval nextDelay w)"

text \<open>\<^verbatim>\<open>delay = Number(delay ?? 0)\<close>.\<close>

definition Number_or_0 :: "jsnum option \<Rightarrow> jsnum" where
  "Number_or_0 d = (case d of None \<Rightarrow> Fin 0 | Some x \<Rightarrow> x)"

text \<open>\<^verbatim>\<open>if (!Number.isFinite(delay) || delay < 0) delay = 0\<close>.\<close>

definition clamp_delay :: "jsnum \<Rightarrow> jsnum" where
  "clamp_delay d = (if \<not> isFinite d \<or> js_lt d (Fin 0) then Fin 0 else d)"

text \<open>\<^verbatim>\<open>_setTimeout\<close>.\<close>

definition setTimeout_impl :: "fn \<Rightarrow> jsnum option \<Rightarrow> jsval list \<Rightarrow> world \<Rightarrow> world" where
  "setTimeout_impl cb delay0 args w =
     (let delay1 = Number_or_0 delay0;
          w1 = w\<lparr>kind := TimeoutObj, handle_id := None, cleared_flag := False,
                 targetTime := None, shouldUnref := False,
                 callback := cb, arguments := args\<rparr>
      in if js_gt delay1 (Fin MAX_SAFE_INTEGER) then w1
         else
           let delay2 = clamp_delay delay1;
               w2 = w1\<lparr>targetTime := Some (js_add (Fin (now w1)) delay2)\<rparr>
           in schedule_timeout delay2 w2)"

text \<open>
  The options test of \<^verbatim>\<open>setTimeout\<close> on \<^verbatim>\<open>args.at(-1)\<close>, which is undefined for
  an empty argument list.
\<close>

definition mostRecentArg :: "jsval list \<Rightarrow> jsval" where
  "mostRecentArg args = (if args = [] then JUndefined else last args)"

definition is_options :: "jsval \<Rightarrow> bool" where
  "is_options v =
     (typeof v = ''object'' \<and> v \<noteq> JNull \<and>
      (js_in ''signal'' v \<or> length (Object_keys v) = 0))"

definition take_options :: "jsval list \<Rightarrow> jsval option \<times> jsval list" where
  "take_options args =
     (if is_options (mostRecentArg args) then (Some (last args), butlast args)
      else (None, args))"

text \<open>
  The object literal that \<^verbatim>\<open>setTimeout\<close> returns when the signal is already aborted:
  its \<^verbatim>\<open>cleared\<close> is the constant true, its \<^verbatim>\<open>remaining()\<close> the constant 0, and it
  has neither \<^verbatim>\<open>_cleared\<close> nor \<^verbatim>\<open>_targetTime\<close>.
\<close>

definition precleared :: "world \<Rightarrow> world" where
  "precleared w =
     w\<lparr>kind := PreclearedObj, handle_id := None, cleared_flag := False, targetTime := None\<rparr>"

text \<open>
  \<^verbatim>\<open>setTimeout\<close>. The last step of the source rebinds its parameter
  \<^verbatim>\<open>callback\<close> to the wrapper; \<^verbatim>\<open>_setTimeout\<close> has been called with the
  original function before, and nothing reads the parameter afterwards.
\<close>

definition setTimeout :: "jsval \<Rightarrow> jsnum option \<Rightarrow> jsval list \<Rightarrow> world \<Rightarrow> js_error + world" where
  "setTimeout cb delay0 args w =
     (case cb of
        JFunc f \<Rightarrow>
          (let options = fst (take_options args);
               newArgs = snd (take_options args);
               signal = get_signal options
           in if signal \<and> aborted w then Inr (precleared w)
              else
                let timeout = setTimeout_impl f delay0 newArgs w;
                    w1 = (if signal then timeout\<lparr>listeners := listeners timeout @ [ClearListener]\<rparr>
                          else timeout);
                    callback' = Wrapped signal f
                in Inr w1)
      | _ \<Rightarrow> Inl (TypeError ''Expected callback to be a function''))"

text \<open>\<^verbatim>\<open>setInterval\<close>.\<close>

definition setInterval :: "jsval \<Rightarrow> jsnum option \<Rightarrow> jsval list \<Rightarrow> world \<Rightarrow> js_error + world" where
  "setInterval cb delay0 args w =
     (case cb of
        JFunc f \<Rightarrow>
          (let delay1 = Number_or_0 delay0;
               w1 = w\<lparr>kind := IntervalObj, handle_id := None, cleared_flag := False,
                      shouldUnref := False, callback := f, arguments := args,
                      interval_delay := delay1\<rparr>
           in if js_gt delay1 (Fin MAX_SAFE_INTEGER) then Inr (w1\<lparr>nextTargetTime := PInf\<rparr>)
              else
                let delay2 = clamp_delay delay1;
                    w2 = w1\<lparr>interval_delay := delay2,
                           nextTargetTime := js_add (Fin (now w1)) delay2\<rparr>
                in Inr (schedule_interval delay2 w2))
      | _ \<Rightarrow> Inl (TypeError ''Expected callback to be a function''))"

text \<open>
  \<^verbatim>\<open>delay\<close>: the promise executor runs at once. The second argument says whether the
  options carry the signal.
\<close>

definition delay :: "jsnum \<Rightarrow> bool \<Rightarrow> world \<Rightarrow> world" where
  "delay ms signal w =
     (let w0 = w\<lparr>promise := Pending\<rparr>
      in if signal \<and> aborted w0 then reject (AbortError None) w0
         else
           (case setTimeout (JFunc (OnDelayFire signal)) (Some ms) [] w0 of
              Inl e \<Rightarrow> reject e w0
            | Inr w1 \<Rightarrow>
                if signal then w1\<lparr>listeners := listeners w1 @ [DelayListener]\<rparr> else w1))"

subsection \<open>The environment\<close>

text \<open>
  The platform fires a pending native timer that is due; between two fires, top-level
  code may let time pass, call the handle's operations or abort the signal.
\<close>

datatype event = Fire nat | Act action

fun step :: "event \<Rightarrow> world \<Rightarrow> world" where
  "step (Act a) w = act a w"
| "step (Fire n) w =
     (case map_of (timers w) n of
        None \<Rightarrow> w
      | Some t \<Rightarrow>
          if due t w then run_kont (kont t) (native_clearTimeout n w) else w)"

fun run :: "event list \<Rightarrow> world \<Rightarrow> world" where
  "run [] w = w"
| "run (e # es) w = run es (step e w)"

text \<open>
  The platform firing on time: the clock moves to the instant the oldest pending native
  timer is due (it stays where it is when that instant has passed) and the timer fires.
\<close>

definition fire_next :: "world \<Rightarrow> world" where
  "fire_next w =
     (case timers w of
        [] \<Rightarrow> w
      | e # es \<Rightarrow>
          (case millis (snd e) of
             Fin q \<Rightarrow> step (Fire (fst e)) (w\<lparr>now := max (now w) (issued_at (snd e) + q)\<rparr>)
           | _ \<Rightarrow> w))"

section \<open>Notions used in the proofs\<close>

text \<open>
  The arguments of a call whose options, if it has any, are as their type
  \<^verbatim>\<open>{ signal?: AbortSignal }\<close> describes them: under \<^verbatim>\<open>signal\<close> they hold an
  AbortSignal, undefined or null, or they have no such key.
\<close>

definition signal_typed :: "jsval list \<Rightarrow> bool" where
  "signal_typed args =
     (case fst (take_options args) of
        Some (JObj ps) \<Rightarrow>
          (case map_of ps ''signal'' of
             None \<Rightarrow> True
           | Some v \<Rightarrow> v = JSignal \<or> v = JUndefined \<or> v = JNull)
      | _ \<Rightarrow> True)"

text \<open>
  An integer of magnitude at most \<open>2^53\<close>. Every such number is a value of the number
  type of the source, and the source computes a sum or difference of two of them
  without rounding whenever the result is again such a number.
\<close>

fun exact_integer :: "jsnum \<Rightarrow> bool" where
  "exact_integer (Fin q) = (q = of_int \<lfloor>q\<rfloor> \<and> \<bar>q\<bar> \<le> 9007199254740992)"
| "exact_integer x = False"

text \<open>The part of a world that no handle operation, listener or callback action changes.\<close>

definition frame :: "world \<Rightarrow> kind \<times> fn \<times> jsval list \<times> jsnum \<times> jsnum \<times> jsnum option \<times> jsval list list \<times> jsnum list \<times> nat" where
  "frame w = (kind w, callback w, arguments w, interval_delay w, nextTargetTime w, targetTime w,
              calls w, segments w, next_id w)"

text \<open>
  At most one native timer is pending; when one is, the handle's \<^verbatim>\<open>id\<close> refers to it and
  the handle is not cleared.
\<close>

definition single_pending :: "world \<Rightarrow> bool" where
  "single_pending w = (timers w = [] \<or>
           (length (timers w) = 1 \<and> handle_id w = Some (fst (hd (timers w))) \<and> \<not> cleared_flag w))"

text \<open>The pending native timers without their keep-alive flag.\<close>

definition pend :: "world \<Rightarrow> (nat \<times> kont \<times> rat \<times> jsnum) list" where
  "pend w = map (\<lambda>e. (fst e, kont (snd e), issued_at (snd e), millis (snd e))) (timers w)"

text \<open>
  How a world can differ after code that fires no native timer: the frame is the same,
  the clock has not gone back, and the pending timer is either untouched or cancelled
  with the handle cleared.
\<close>

definition quiet :: "world \<Rightarrow> world \<Rightarrow> bool" where
  "quiet w w' =
     (frame w' = frame w \<and> single_pending w' \<and> now w \<le> now w' \<and>
      ((timers w' = [] \<and> cleared_flag w') \<or>
       (pend w' = pend w \<and> handle_id w' = handle_id w \<and> cleared_flag w' = cleared_flag w)))"


text \<open>The handle and closure of \<^verbatim>\<open>_setTimeout\<close> before anything is scheduled.\<close>

definition created :: "fn \<Rightarrow> jsval list \<Rightarrow> world \<Rightarrow> world" where
  "created f args w =
     w\<lparr>kind := TimeoutObj, handle_id := None, cleared_flag := False, targetTime := None,
       shouldUnref := False, callback := f, arguments := args\<rparr>"

text \<open>
  The world in which the \<open>j\<close>-th segment of a chain for the delay \<open>d\<close> has just been
  issued, every earlier segment having fired exactly when it was due.
\<close>

definition seg :: "world \<Rightarrow> rat \<Rightarrow> nat \<Rightarrow> world" where
  "seg w d j =
     w\<lparr>now := now w + of_nat j * MAX_TIMEOUT,
       timers := [(next_id w + j,
          \<lparr>kont = (if d - of_nat j * MAX_TIMEOUT \<le> MAX_TIMEOUT then TimeoutFinal else TimeoutCapped),
           issued_at = now w + of_nat j * MAX_TIMEOUT,
           millis = Fin (min (d - of_nat j * MAX_TIMEOUT) MAX_TIMEOUT),
           refed = (\<not> shouldUnref w)\<rparr>)],
       next_id := Suc (next_id w + j),
       segments := segments w @ map Fin (replicate j MAX_TIMEOUT @ [min (d - of_nat j * MAX_TIMEOUT) MAX_TIMEOUT]),
       handle_id := Some (next_id w + j)\<rparr>"

text \<open>
  The invariant of an interval with a user callback and the finite period \<open>p\<close>: no
  listener is registered, every invocation so far had the given arguments, and the
  target stands at the first target \<open>T0\<close> plus \<open>p\<close> for every invocation so far.
\<close>

definition iinv :: "action list \<Rightarrow> jsval list \<Rightarrow> rat \<Rightarrow> jsnum \<Rightarrow> world \<Rightarrow> bool" where
  "iinv body args p T0 w =
     (kind w = IntervalObj \<and> callback w = User body \<and> arguments w = args \<and> single_pending w \<and>
      interval_delay w = Fin p \<and> listeners w = [] \<and>
      list_all (\<lambda>e. kont (snd e) = IntervalFinal \<or> kont (snd e) = IntervalCapped) (timers w) \<and>
      nextTargetTime w = js_add T0 (Fin (of_nat (length (calls w)) * p)) \<and>
      list_all (\<lambda>c. c = args) (calls w))"

text \<open>
  The invariant of \<^verbatim>\<open>delay\<close>: the promise is pending and nothing has been settled, or
  it has been resolved once, or rejected once with the \<^verbatim>\<open>AbortError\<close>; after either,
  nothing is pending and no listener is left.
\<close>

definition dinv :: "bool \<Rightarrow> world \<Rightarrow> bool" where
  "dinv sig w =
     (callback w = OnDelayFire sig \<and> single_pending w \<and>
      list_all (\<lambda>e. kont (snd e) = TimeoutFinal \<or> kont (snd e) = TimeoutCapped) (timers w) \<and>
      ((settled w = [] \<and> promise w = Pending \<and>
        listeners w = (if sig then [DelayListener] else []) \<and> (sig \<longrightarrow> \<not> aborted w)) \<or>
       (settled w = [Resolve] \<and> promise w = Fulfilled \<and> timers w = [] \<and> listeners w = []) \<or>
       (settled w = [Reject (AbortError None)] \<and> promise w = Rejected (AbortError None) \<and>
        timers w = [] \<and> listeners w = [] \<and> sig)))"

section \<open>Basic facts\<close>

subsection \<open>What the handle operations leave unchanged\<close>

lemma single_pending_cases [consumes 1, case_names idle pending]:
  assumes "single_pending w"
  obtains "timers w = []"
  | n t where "timers w = [(n, t)]" "handle_id w = Some n" "\<not> cleared_flag w"
proof (cases "timers w")
  case Nil
  then show ?thesis using that(1) by simp
next
  case (Cons e es)
  with assms have "es = []" "handle_id w = Some (fst e)" "\<not> cleared_flag w"
    by (simp_all add: single_pending_def)
  with Cons show ?thesis using that(2) [of "fst e" "snd e"] by simp
qed

declare clearTimeout.simps [simp del]

lemma clearTimeout_sel:
  "cleared_flag (clearTimeout Handle w)"
  "now (clearTimeout r w) = now w"
  "aborted (clearTimeout r w) = aborted w"
  "listeners (clearTimeout r w) = listeners w"
  "promise (clearTimeout r w) = promise w"
  "settled (clearTimeout r w) = settled w"
  "shouldUnref (clearTimeout r w) = shouldUnref w"
  "frame (clearTimeout r w) = frame w"
  by (cases r; simp add: clearTimeout.simps frame_def Let_def native_clearTimeout_def split: option.splits)+

lemma clearTimeout_timers: "single_pending w \<Longrightarrow> timers (clearTimeout Handle w) = []"
  by (cases w rule: single_pending_cases)
     (simp_all add: clearTimeout.simps Let_def native_clearTimeout_def split: option.splits)

lemma frame_reject: "frame (reject e w) = frame w"
  by (simp add: reject_def frame_def)

lemma frame_run_listener: "frame (run_listener l w) = frame w"
  by (cases l) (simp_all add: clearTimeout_sel frame_reject)

lemma frame_fold_run_listener: "frame (fold run_listener ls w) = frame w"
  by (induction ls arbitrary: w) (simp_all add: frame_run_listener)

lemma frame_abort: "frame (abort w) = frame w"
  by (simp add: abort_def frame_fold_run_listener) (simp add: frame_def)

lemma frame_ref: "frame (ref w) = frame w" "frame (unref w) = frame w"
  by (simp_all add: ref_def unref_def frame_def Let_def native_set_ref_def split: kind.splits option.splits)

lemma frame_act: "frame (act a w) = frame w"
proof (cases a)
  case (Elapse d)
  then show ?thesis by (simp add: frame_def)
qed (simp_all add: clearTimeout_sel frame_abort frame_ref)

lemma frame_fold_act: "frame (fold act body w) = frame w"
  by (induction body arbitrary: w) (simp_all add: frame_act)

lemma quiet_refl: "single_pending w \<Longrightarrow> quiet w w"
  by (simp add: quiet_def)

lemma quiet_trans: "quiet w w' \<Longrightarrow> quiet w' w'' \<Longrightarrow> quiet w w''"
  unfolding quiet_def pend_def by (elim conjE disjE) simp_all

lemma quiet_clearTimeout: "single_pending w \<Longrightarrow> quiet w (clearTimeout Handle w)"
  by (simp add: quiet_def clearTimeout_sel clearTimeout_timers single_pending_def)

lemma quiet_reject: "quiet w w' \<Longrightarrow> quiet w (reject e w')"
  by (simp add: quiet_def reject_def frame_def single_pending_def pend_def)

lemma quiet_run_listener: "single_pending w \<Longrightarrow> quiet w (run_listener l w)"
  by (cases l) (simp_all add: quiet_clearTimeout quiet_reject)

lemma quiet_fold_run_listener: "single_pending w \<Longrightarrow> quiet w (fold run_listener ls w)"
proof (induction ls arbitrary: w)
  case Nil
  then show ?case by (simp add: quiet_refl)
next
  case (Cons l ls)
  have q: "quiet w (run_listener l w)" using Cons.prems by (rule quiet_run_listener)
  then have "single_pending (run_listener l w)" by (simp add: quiet_def)
  then have "quiet (run_listener l w) (fold run_listener ls (run_listener l w))" by (rule Cons.IH)
  with q show ?case by (auto intro: quiet_trans)
qed

lemma quiet_abort: "single_pending w \<Longrightarrow> quiet w (abort w)"
proof -
  assume w: "single_pending w"
  let ?v = "w\<lparr>aborted := True, listeners := []\<rparr>"
  have "quiet w ?v" using w by (simp add: quiet_def frame_def single_pending_def pend_def)
  moreover have "quiet ?v (fold run_listener (listeners w) ?v)"
    by (rule quiet_fold_run_listener) (use w in \<open>simp add: single_pending_def\<close>)
  ultimately show ?thesis using w by (auto simp: abort_def quiet_refl intro: quiet_trans)
qed

lemma quiet_set_ref: "single_pending w \<Longrightarrow> quiet w (native_set_ref b n (w\<lparr>shouldUnref := c\<rparr>))"
  by (cases w rule: single_pending_cases)
     (simp_all add: quiet_def frame_def single_pending_def pend_def native_set_ref_def)

lemma quiet_shouldUnref: "single_pending w \<Longrightarrow> quiet w (w\<lparr>shouldUnref := c\<rparr>)"
  by (simp add: quiet_def frame_def single_pending_def pend_def)

lemma quiet_ref: "single_pending w \<Longrightarrow> quiet w (ref w)" "single_pending w \<Longrightarrow> quiet w (unref w)"
  by (simp_all add: ref_def unref_def Let_def quiet_set_ref quiet_shouldUnref quiet_refl
        split: kind.splits option.splits)

lemma quiet_act: "single_pending w \<Longrightarrow> quiet w (act a w)"
proof (cases a)
  case (Elapse d)
  assume "single_pending w"
  then show ?thesis using Elapse by (simp add: quiet_def frame_def single_pending_def pend_def)
qed (simp_all add: quiet_clearTimeout quiet_abort quiet_ref)

lemma quiet_fold_act: "single_pending w \<Longrightarrow> quiet w (fold act body w)"
proof (induction body arbitrary: w)
  case Nil
  then show ?case by (simp add: quiet_refl)
next
  case (Cons a body)
  have q: "quiet w (act a w)" using Cons.prems by (rule quiet_act)
  then have "single_pending (act a w)" by (simp add: quiet_def)
  then have "quiet (act a w) (fold act body (act a w))" by (rule Cons.IH)
  with q show ?case by (auto intro: quiet_trans)
qed

subsection \<open>Firing a native timer, and the invariant of a one-shot timer\<close>

lemma pend_Nil [simp]: "pend w = [] \<longleftrightarrow> timers w = []"
  by (simp add: pend_def)

lemma pend_konts:
  "pend w' = pend w \<Longrightarrow> map (\<lambda>e. kont (snd e)) (timers w') = map (\<lambda>e. kont (snd e)) (timers w)"
proof -
  have "map (\<lambda>e. kont (snd e)) (timers v) = map (\<lambda>p. fst (snd p)) (pend v)" for v
    by (simp add: pend_def)
  then show "pend w' = pend w \<Longrightarrow> ?thesis" by simp
qed

lemma quiet_idle: "quiet w w' \<Longrightarrow> timers w = [] \<Longrightarrow> timers w' = []"
  unfolding quiet_def by (elim conjE disjE) (simp_all flip: pend_Nil)

lemma frameD:
  assumes "frame w' = frame w"
  shows "kind w' = kind w" "callback w' = callback w" "arguments w' = arguments w"
    "interval_delay w' = interval_delay w" "nextTargetTime w' = nextTargetTime w"
    "targetTime w' = targetTime w" "calls w' = calls w" "segments w' = segments w"
    "next_id w' = next_id w"
  using assms by (simp_all add: frame_def)

lemma native_clearTimeout_single:
  "timers w = [(n, t)] \<Longrightarrow> native_clearTimeout n w = w\<lparr>timers := []\<rparr>"
  by (simp add: native_clearTimeout_def)

lemma step_Fire_idle: "timers w = [] \<Longrightarrow> step (Fire n) w = w"
  by simp

lemma step_Act: "step (Act a) w = act a w"
  by simp

lemma step_Fire_single:
  "timers w = [(m, t)] \<Longrightarrow>
   step (Fire n) w = (if n = m \<and> due t w then run_kont (kont t) (w\<lparr>timers := []\<rparr>) else w)"
  by (simp add: native_clearTimeout_def)

declare step.simps [simp del]

lemma schedule_timeout_eq:
  assumes "\<not> cleared_flag w" "timers w = []"
  shows "schedule_timeout r w =
    w\<lparr>timers := [(next_id w,
          \<lparr>kont = (if js_le r (Fin MAX_TIMEOUT) then TimeoutFinal else TimeoutCapped),
           issued_at = now w,
           millis = (if js_le r (Fin MAX_TIMEOUT) then r else Fin MAX_TIMEOUT),
           refed = (\<not> shouldUnref w)\<rparr>)],
      next_id := Suc (next_id w),
      segments := segments w @ [if js_le r (Fin MAX_TIMEOUT) then r else Fin MAX_TIMEOUT],
      handle_id := Some (next_id w)\<rparr>"
  using assms
  by (cases w) (simp add: schedule_timeout_def assign_id_def native_setTimeout_def unref_id_def
      native_set_ref_def Let_def)

lemma schedule_interval_eq:
  assumes "\<not> cleared_flag w" "timers w = []"
  shows "schedule_interval r w =
    w\<lparr>timers := [(next_id w,
          \<lparr>kont = (if js_le r (Fin MAX_TIMEOUT) then IntervalFinal else IntervalCapped),
           issued_at = now w,
           millis = (if js_le r (Fin MAX_TIMEOUT) then r else Fin MAX_TIMEOUT),
           refed = (\<not> shouldUnref w)\<rparr>)],
      next_id := Suc (next_id w),
      segments := segments w @ [if js_le r (Fin MAX_TIMEOUT) then r else Fin MAX_TIMEOUT],
      handle_id := Some (next_id w)\<rparr>"
  using assms
  by (cases w) (simp add: schedule_interval_def assign_id_def native_setTimeout_def unref_id_def
      native_set_ref_def Let_def)

lemma idle_step:
  assumes "timers w = []"
  shows "timers (step e w) = []" "frame (step e w) = frame w"
    "cleared_flag w \<Longrightarrow> cleared_flag (step e w)"
proof -
  have sp: "single_pending w" using assms by (simp add: single_pending_def)
  have q: "quiet w (step e w)"
  proof (cases e)
    case (Fire n)
    then show ?thesis using assms sp by (simp add: quiet_refl step_Fire_idle)
  next
    case (Act a)
    then show ?thesis using sp by (simp add: quiet_act step_Act)
  qed
  show "timers (step e w) = []" using q assms by (rule quiet_idle)
  show "frame (step e w) = frame w" using q by (simp add: quiet_def)
  show "cleared_flag w \<Longrightarrow> cleared_flag (step e w)" using q by (auto simp: quiet_def)
qed

lemma idle_run:
  "timers w = [] \<Longrightarrow>
   timers (run evs w) = [] \<and> frame (run evs w) = frame w \<and>
   (cleared_flag w \<longrightarrow> cleared_flag (run evs w))"
  by (induction evs arbitrary: w) (simp_all add: idle_step)

lemma run_append: "run (es @ fs) w = run fs (run es w)"
  by (induction es arbitrary: w) simp_all




subsection \<open>The chain of segments\<close>

lemma setTimeout_impl_never:
  "js_gt (Number_or_0 d) (Fin MAX_SAFE_INTEGER) \<Longrightarrow> setTimeout_impl f d args w = created f args w"
  by (simp add: setTimeout_impl_def created_def)

lemma clamp_delay_Fin: "clamp_delay (Fin q) = Fin (max 0 q)"
  by (simp add: clamp_delay_def max_def)

lemma setTimeout_impl_Fin:
  assumes "q \<le> MAX_SAFE_INTEGER" "timers w = []"
  shows "setTimeout_impl f (Some (Fin q)) args w =
         seg ((created f args w)\<lparr>targetTime := Some (Fin (now w + max 0 q))\<rparr>) (max 0 q) 0"
  using assms
  by (cases w)
     (simp add: setTimeout_impl_def created_def seg_def Number_or_0_def js_gt_def clamp_delay_Fin
       schedule_timeout_eq js_le_def min_def max_def)

lemma fire_next_capped:
  assumes "targetTime w = Some (Fin (now w + d))" "\<not> cleared_flag w" "timers w = []"
    and "MAX_TIMEOUT < d - of_nat j * MAX_TIMEOUT"
  shows "fire_next (seg w d j) = seg w d (Suc j)"
proof -
  have m: "0 < MAX_TIMEOUT" by (simp add: MAX_TIMEOUT_def)
  show ?thesis using assms m
    by (cases w)
       (simp add: fire_next_def seg_def step_Fire_single due_def js_le_def Math_max_def js_sub_def
        schedule_timeout_eq min_def max_def algebra_simps Let_def replicate_append_same)
qed

lemma fire_next_final:
  assumes "\<not> cleared_flag w" "timers w = []"
    and "d - of_nat j * MAX_TIMEOUT \<le> MAX_TIMEOUT" "0 \<le> d - of_nat j * MAX_TIMEOUT"
  shows "fire_next (seg w d j) =
         invoke (callback w) (arguments w) ((seg w d j)\<lparr>now := now w + d, timers := []\<rparr>)"
  using assms
  by (cases w)
     (simp add: fire_next_def seg_def step_Fire_single due_def js_le_def min_def max_def algebra_simps)

lemma chain_prefix:
  assumes "targetTime w = Some (Fin (now w + d))" "\<not> cleared_flag w" "timers w = []"
    and "of_nat j * MAX_TIMEOUT < d \<or> j = 0"
  shows "(fire_next ^^ j) (seg w d 0) = seg w d j"
  using assms(4)
proof (induction j)
  case 0
  then show ?case by simp
next
  case (Suc j)
  have m: "0 < MAX_TIMEOUT" by (simp add: MAX_TIMEOUT_def)
  from Suc.prems have lt: "of_nat (Suc j) * MAX_TIMEOUT < d" by simp
  then have "MAX_TIMEOUT < d - of_nat j * MAX_TIMEOUT" using m by (simp add: algebra_simps)
  moreover have "of_nat j * MAX_TIMEOUT < d \<or> j = 0"
    using lt m by (simp add: algebra_simps)
  ultimately show ?case using Suc.IH assms(1-3) by (simp add: fire_next_capped)
qed

subsection \<open>Counting the segments\<close>

lemma ceil_bounds:
  assumes "0 < d"
  shows "0 < nat \<lceil>d / MAX_TIMEOUT\<rceil>"
    and "of_nat (nat \<lceil>d / MAX_TIMEOUT\<rceil> - 1) * MAX_TIMEOUT < d"
    and "d \<le> of_nat (nat \<lceil>d / MAX_TIMEOUT\<rceil>) * MAX_TIMEOUT"
proof -
  have m: "0 < MAX_TIMEOUT" by (simp add: MAX_TIMEOUT_def)
  let ?x = "d / MAX_TIMEOUT"
  let ?k = "nat \<lceil>?x\<rceil>"
  have x: "0 < ?x" using assms m by simp
  then have c: "0 < \<lceil>?x\<rceil>" by simp
  then show k: "0 < ?k" by simp
  have ok: "(of_nat ?k :: rat) = of_int \<lceil>?x\<rceil>" using c by simp
  have "of_int \<lceil>?x\<rceil> - 1 < d / MAX_TIMEOUT" by linarith
  then have lo: "(of_int \<lceil>?x\<rceil> - 1) * MAX_TIMEOUT < d" using m by (simp add: pos_less_divide_eq)
  have hi: "d \<le> of_int \<lceil>?x\<rceil> * MAX_TIMEOUT"
    using le_of_int_ceiling [of ?x] by (simp only: pos_divide_le_eq [OF m])
  obtain k' where k': "?k = Suc k'" using k by (cases ?k) simp_all
  have "(of_nat (?k - 1) :: rat) = of_nat ?k - 1" unfolding k' by simp
  then show "of_nat (?k - 1) * MAX_TIMEOUT < d" using lo ok by simp
  show "d \<le> of_nat ?k * MAX_TIMEOUT" using hi ok by simp
qed

lemma seg_listeners: "(seg w d j)\<lparr>listeners := L\<rparr> = seg (w\<lparr>listeners := L\<rparr>) d j"
  by (cases w) (simp add: seg_def)

lemma setTimeout_Fin:
  assumes "q \<le> MAX_SAFE_INTEGER" "timers w = []" "\<not> aborted w"
  shows "setTimeout (JFunc f) (Some (Fin q)) args w =
         Inr (seg ((created f (snd (take_options args)) w)
                    \<lparr>targetTime := Some (Fin (now w + max 0 q)),
                     listeners := listeners w @
                       (if get_signal (fst (take_options args)) then [ClearListener] else [])\<rparr>)
                  (max 0 q) 0)"
  using assms
  by (simp add: setTimeout_def setTimeout_impl_Fin Let_def seg_listeners)
     (simp add: seg_def created_def)

subsection \<open>Calls of a user callback\<close>

lemma invoke_User_sel:
  "calls (invoke (User body) as v) = calls v @ [as]"
  "segments (invoke (User body) as v) = segments v"
  "targetTime (invoke (User body) as v) = targetTime v"
  using frameD [OF frame_fold_act [of body "v\<lparr>calls := calls v @ [as]\<rparr>"]]
  by simp_all

lemma setTimeout_never:
  assumes "js_gt (Number_or_0 d) (Fin MAX_SAFE_INTEGER)" "\<not> aborted w"
  shows "setTimeout (JFunc f) d args w =
         Inr ((created f (snd (take_options args)) w)
                \<lparr>listeners := listeners w @
                   (if get_signal (fst (take_options args)) then [ClearListener] else [])\<rparr>)"
  using assms by (simp add: setTimeout_def setTimeout_impl_never Let_def created_def)

subsection \<open>Options and delays within one segment\<close>

lemma take_options_iff:
  "fst (take_options args) = Some v \<longleftrightarrow>
     args \<noteq> [] \<and> v = last args \<and> typeof v = ''object'' \<and> v \<noteq> JNull \<and>
     (js_in ''signal'' v \<or> Object_keys v = [])"
  by (auto simp: take_options_def is_options_def mostRecentArg_def)

lemma take_options_snd:
  "snd (take_options args) = (if fst (take_options args) = None then args else butlast args)"
  by (simp add: take_options_def)

lemma take_options_trailing_empty: "take_options (pre @ [JObj []]) = (Some (JObj []), pre)"
  by (simp add: take_options_def is_options_def mostRecentArg_def)

lemma take_options_leading:
  "rest \<noteq> [] \<Longrightarrow>
   take_options (v # rest) = (fst (take_options rest), v # snd (take_options rest))"
  by (simp add: take_options_def mostRecentArg_def)

lemma setTimeout_Fin':
  assumes "q \<le> MAX_SAFE_INTEGER" "timers w = []" "\<not> (get_signal (fst (take_options args)) \<and> aborted w)"
  shows "setTimeout (JFunc f) (Some (Fin q)) args w =
         Inr (seg ((created f (snd (take_options args)) w)
                    \<lparr>targetTime := Some (Fin (now w + max 0 q)),
                     listeners := listeners w @
                       (if get_signal (fst (take_options args)) then [ClearListener] else [])\<rparr>)
                  (max 0 q) 0)"
  using assms
  by (simp add: setTimeout_def setTimeout_impl_Fin Let_def seg_listeners)
     (simp add: seg_def created_def)

lemma short_delay_fires:
  assumes "0 \<le> q" "q \<le> MAX_TIMEOUT" "\<not> (get_signal (fst (take_options args)) \<and> ab)"
  shows "\<exists>w1. setTimeout (JFunc (User body)) (Some (Fin q)) args (new_world t ab) = Inr w1 \<and>
           calls w1 = [] \<and>
           listeners w1 = (if get_signal (fst (take_options args)) then [ClearListener] else []) \<and>
           calls (fire_next w1) = [snd (take_options args)]"
proof -
  let ?W = "(created (User body) (snd (take_options args)) (new_world t ab))
              \<lparr>targetTime := Some (Fin (now (new_world t ab) + max 0 q)),
               listeners := listeners (new_world t ab) @
                 (if get_signal (fst (take_options args)) then [ClearListener] else [])\<rparr>"
  have q: "q \<le> MAX_SAFE_INTEGER" using assms(2) by (simp add: MAX_TIMEOUT_def MAX_SAFE_INTEGER_def)
  have s: "setTimeout (JFunc (User body)) (Some (Fin q)) args (new_world t ab) = Inr (seg ?W q 0)"
    using setTimeout_Fin' [OF q, of "new_world t ab" args "User body"] assms
    by (simp add: new_world_def max_def)
  have W: "\<not> cleared_flag ?W" "timers ?W = []" by (simp_all add: created_def new_world_def)
  have W2: "callback ?W = User body" "arguments ?W = snd (take_options args)"
    by (simp_all add: created_def)
  have "fire_next (seg ?W q 0) =
      invoke (callback ?W) (arguments ?W) ((seg ?W q 0)\<lparr>now := now ?W + q, timers := []\<rparr>)"
    by (rule fire_next_final [OF W]) (use assms in simp_all)
  then have f: "fire_next (seg ?W q 0) =
      invoke (User body) (snd (take_options args)) ((seg ?W q 0)\<lparr>now := now ?W + q, timers := []\<rparr>)"
    by (simp only: W2)
  have "calls (fire_next (seg ?W q 0)) = [snd (take_options args)]"
    by (simp only: f invoke_User_sel) (simp add: seg_def created_def new_world_def)
  moreover have "calls (seg ?W q 0) = []"
    "listeners (seg ?W q 0) = (if get_signal (fst (take_options args)) then [ClearListener] else [])"
    by (simp_all add: seg_def created_def new_world_def)
  ultimately show ?thesis using s by blast
qed

subsection \<open>Evaluation, and delays that collapse\<close>

lemmas eval_defs =
  setTimeout_def setInterval_def setTimeout_impl_def take_options_def is_options_def mostRecentArg_def
  Number_or_0_def clamp_delay_def js_gt_def js_le_def js_sub_def Math_max_def
  MAX_TIMEOUT_def MAX_SAFE_INTEGER_def schedule_timeout_def schedule_interval_def
  assign_id_def unref_id_def native_setTimeout_def native_clearTimeout_def native_set_ref_def
  new_world_def due_def step.simps fire_next_def clearTimeout.simps abort_def
  resolve_def reject_def precleared_def remaining_def cleared_def delay_def Let_def
  ref_def unref_def AbortError_def TypeError_def








subsection \<open>Worlds with nothing pending\<close>

lemma inert_act:
  assumes "listeners w = []"
  shows "listeners (act a w) = []" "settled (act a w) = settled w" "promise (act a w) = promise w"
  using assms
  by (cases a; simp add: clearTimeout_sel abort_def ref_def unref_def Let_def native_set_ref_def
        split: kind.splits option.splits)+

lemma inert_step:
  assumes "timers w = []" "listeners w = []"
  shows "listeners (step e w) = []" "settled (step e w) = settled w" "promise (step e w) = promise w"
  using assms by (cases e; simp add: step_Fire_idle step_Act inert_act)+

lemma inert_run:
  "timers w = [] \<Longrightarrow> listeners w = [] \<Longrightarrow>
   settled (run evs w) = settled w \<and> promise (run evs w) = promise w \<and> listeners (run evs w) = []"
  by (induction evs arbitrary: w) (simp_all add: inert_step idle_step)




subsection \<open>The invariant of an interval\<close>

lemma js_add_Fin_Fin: "js_add (js_add T (Fin a)) (Fin b) = js_add T (Fin (a + b))"
  by (cases T) simp_all

lemma inert_fold_act: "listeners w = [] \<Longrightarrow> listeners (fold act body w) = []"
  by (induction body arbitrary: w) (simp_all add: inert_act)

lemma iinv_quiet:
  assumes "iinv body args p T0 w" "quiet w w'" "listeners w' = []"
  shows "iinv body args p T0 w'"
proof -
  have f: "frame w' = frame w" and sp': "single_pending w'" using assms(2) by (simp_all add: quiet_def)
  have k: "list_all (\<lambda>e. kont (snd e) = IntervalFinal \<or> kont (snd e) = IntervalCapped) (timers w')"
  proof (cases "timers w' = []")
    case True
    then show ?thesis by simp
  next
    case False
    with assms(2) have "pend w' = pend w" by (auto simp: quiet_def)
    then have "map (\<lambda>e. kont (snd e)) (timers w') = map (\<lambda>e. kont (snd e)) (timers w)"
      by (rule pend_konts)
    moreover have "list_all (\<lambda>k. k = IntervalFinal \<or> k = IntervalCapped) (map (\<lambda>e. kont (snd e)) (timers w))"
      using assms(1) by (simp add: iinv_def list_all_iff)
    ultimately have "list_all (\<lambda>k. k = IntervalFinal \<or> k = IntervalCapped) (map (\<lambda>e. kont (snd e)) (timers w'))"
      by simp
    then show ?thesis by (simp add: list_all_iff)
  qed
  show ?thesis using assms(1,3) sp' k by (simp add: iinv_def frameD [OF f])
qed

lemma iinv_act: "iinv body args p T0 w \<Longrightarrow> iinv body args p T0 (act a w)"
  by (rule iinv_quiet [where w = w]) (simp_all add: iinv_def quiet_act inert_act)

lemma iinv_fold_act: "iinv body args p T0 w \<Longrightarrow> iinv body args p T0 (fold act bd w)"
  by (rule iinv_quiet [where w = w]) (simp_all add: iinv_def quiet_fold_act inert_fold_act)

lemma schedule_keeps:
  "callback (schedule_interval r w) = callback w"
  "arguments (schedule_interval r w) = arguments w"
  "callback (schedule_timeout r w) = callback w"
  "arguments (schedule_timeout r w) = arguments w"
  by (simp_all add: schedule_interval_def schedule_timeout_def assign_id_def native_setTimeout_def
      unref_id_def native_set_ref_def Let_def)

lemma interval_tick:
  assumes i: "iinv body args p T0 w" and t: "timers w = [(n, nt)]" "kont nt = IntervalFinal" "due nt w"
  defines "T' \<equiv> js_add (nextTargetTime w) (Fin p)"
  defines "w1 \<equiv> w\<lparr>timers := [], nextTargetTime := T'\<rparr>"
  shows "step (Fire n) w =
           invoke (User body) args
             (schedule_interval (Math_max (Fin 0) (js_sub T' (Fin (now w)))) w1)"
    and "iinv body args p T0 (step (Fire n) w)"
    and "calls (step (Fire n) w) = calls w @ [args]"
    and "nextTargetTime (step (Fire n) w) = T'"
    and "segments (step (Fire n) w) = segments w @
           [if js_le (Math_max (Fin 0) (js_sub T' (Fin (now w)))) (Fin MAX_TIMEOUT)
            then Math_max (Fin 0) (js_sub T' (Fin (now w))) else Fin MAX_TIMEOUT]"
proof -
  let ?r = "Math_max (Fin 0) (js_sub T' (Fin (now w)))"
  have nc: "\<not> cleared_flag w" using i t(1) by (simp add: iinv_def single_pending_def)
  have w1: "\<not> cleared_flag w1" "timers w1 = []" using nc by (simp_all add: w1_def)
  let ?w2 = "schedule_interval ?r w1"
  show s: "step (Fire n) w = invoke (User body) args ?w2"
    using i t nc by (simp add: step_Fire_single iinv_def Let_def w1_def T'_def schedule_keeps)
  let ?w3 = "?w2\<lparr>calls := calls ?w2 @ [args]\<rparr>"
  have i3: "iinv body args p T0 ?w3"
    using i nc
    by (simp add: schedule_interval_eq w1_def T'_def iinv_def single_pending_def
        js_add_Fin_Fin algebra_simps)
  have s3: "step (Fire n) w = fold act body ?w3" by (simp add: s)
  show "iinv body args p T0 (step (Fire n) w)" unfolding s3 using i3 by (rule iinv_fold_act)
  have f: "frame (step (Fire n) w) = frame ?w3" unfolding s3 by (rule frame_fold_act)
  show "calls (step (Fire n) w) = calls w @ [args]"
    using frameD(7) [OF f] nc by (simp add: schedule_interval_eq w1_def)
  show "nextTargetTime (step (Fire n) w) = T'"
    using frameD(5) [OF f] nc by (simp add: schedule_interval_eq w1_def)
  show "segments (step (Fire n) w) = segments w @
           [if js_le ?r (Fin MAX_TIMEOUT) then ?r else Fin MAX_TIMEOUT]"
    using frameD(8) [OF f] nc by (simp add: schedule_interval_eq w1_def)
qed

lemma interval_capped:
  assumes i: "iinv body args p T0 w" and t: "timers w = [(n, nt)]" "kont nt = IntervalCapped" "due nt w"
  shows "iinv body args p T0 (step (Fire n) w)"
    and "calls (step (Fire n) w) = calls w"
    and "nextTargetTime (step (Fire n) w) = nextTargetTime w"
proof -
  have nc: "\<not> cleared_flag w" using i t(1) by (simp add: iinv_def single_pending_def)
  let ?w0 = "w\<lparr>timers := []\<rparr>"
  have w0: "\<not> cleared_flag ?w0" "timers ?w0 = []" using nc by simp_all
  have s: "step (Fire n) w =
      schedule_interval (Math_max (Fin 0) (js_sub (nextTargetTime w) (Fin (now w)))) ?w0"
    using t by (simp add: step_Fire_single Let_def)
  show "iinv body args p T0 (step (Fire n) w)"
    unfolding s using i nc by (simp add: schedule_interval_eq iinv_def single_pending_def)
  show "calls (step (Fire n) w) = calls w" "nextTargetTime (step (Fire n) w) = nextTargetTime w"
    unfolding s using nc by (simp_all add: schedule_interval_eq)
qed

lemma iinv_step: "iinv body args p T0 w \<Longrightarrow> iinv body args p T0 (step e w)"
proof (cases e)
  case (Act a)
  assume "iinv body args p T0 w"
  then show ?thesis using Act by (simp add: step_Act iinv_act)
next
  case (Fire n)
  assume i: "iinv body args p T0 w"
  then have "single_pending w" by (simp add: iinv_def)
  then show ?thesis
  proof (cases w rule: single_pending_cases)
    case idle
    then show ?thesis using i Fire by (simp add: step_Fire_idle)
  next
    case (pending m t)
    have kt: "kont t = IntervalFinal \<or> kont t = IntervalCapped" using i pending by (simp add: iinv_def)
    show ?thesis
    proof (cases "n = m \<and> due t w")
      case False
      then have "step e w = w" using Fire pending by (auto simp: step_Fire_single)
      then show ?thesis using i by simp
    next
      case True
      with kt show ?thesis using Fire interval_tick(2) [OF i pending(1)] interval_capped(1) [OF i pending(1)]
        by auto
    qed
  qed
qed

lemma iinv_run: "iinv body args p T0 w \<Longrightarrow> iinv body args p T0 (run evs w)"
  by (induction evs arbitrary: w) (simp_all add: iinv_step)

subsection \<open>Creating an interval, and intervals that nobody clears\<close>

lemma clamp_cases:
  assumes "\<not> js_gt x (Fin MAX_SAFE_INTEGER)"
  obtains p where "clamp_delay x = Fin p" "0 \<le> p" "p \<le> MAX_SAFE_INTEGER"
    "\<And>q. x = Fin q \<Longrightarrow> 0 \<le> q \<Longrightarrow> p = q"
proof (cases x)
  case (Fin q)
  show ?thesis
  proof (rule that [of "max 0 q"])
    show "clamp_delay x = Fin (max 0 q)" using Fin by (simp add: clamp_delay_Fin)
    show "max 0 q \<le> MAX_SAFE_INTEGER" using assms Fin by (simp add: js_gt_def MAX_SAFE_INTEGER_def)
  qed (use Fin in simp_all)
next
  case PInf
  with assms show ?thesis by (simp add: js_gt_def)
next
  case NInf
  show ?thesis by (rule that [of 0]) (simp_all add: NInf clamp_delay_def MAX_SAFE_INTEGER_def)
next
  case NaN
  show ?thesis by (rule that [of 0]) (simp_all add: NaN clamp_delay_def MAX_SAFE_INTEGER_def)
qed

lemma setInterval_scheduled:
  assumes "\<not> js_gt (Number_or_0 d) (Fin MAX_SAFE_INTEGER)" "clamp_delay (Number_or_0 d) = Fin p"
  shows "\<exists>w1. setInterval (JFunc (User body)) d args (new_world t ab) = Inr w1 \<and>
           iinv body args p (Fin (t + p)) w1 \<and> calls w1 = [] \<and> nextTargetTime w1 = Fin (t + p) \<and>
           interval_delay w1 = Fin p \<and> \<not> cleared_flag w1 \<and> targetTime w1 = None"
  using assms
  by (simp add: setInterval_def Let_def schedule_interval_eq new_world_def iinv_def
      single_pending_def)

lemma setInterval_never:
  assumes "js_gt (Number_or_0 d) (Fin MAX_SAFE_INTEGER)"
  shows "\<exists>w1. setInterval (JFunc (User body)) d args (new_world t ab) = Inr w1 \<and>
           timers w1 = [] \<and> listeners w1 = [] \<and> calls w1 = [] \<and> segments w1 = [] \<and>
           nextTargetTime w1 = PInf \<and> interval_delay w1 = Number_or_0 d \<and>
           kind w1 = IntervalObj \<and> \<not> cleared_flag w1 \<and> arguments w1 = args \<and>
           callback w1 = User body"
  using assms by (simp add: setInterval_def Let_def new_world_def)

lemma iinv_never:
  assumes "timers w = []" "listeners w = []" "calls w = []" "nextTargetTime w = PInf"
    "interval_delay w = Fin p" "kind w = IntervalObj" "arguments w = args" "callback w = User body"
  shows "iinv body args p PInf w"
  using assms by (simp add: iinv_def single_pending_def)

lemma abort_no_listeners:
  assumes "listeners w = []"
  shows "timers (abort w) = timers w" "cleared_flag (abort w) = cleared_flag w" "kind (abort w) = kind w"
  using assms by (simp_all add: abort_def)

lemma no_clear_act:
  "listeners w = [] \<Longrightarrow> a \<noteq> Clear \<Longrightarrow> cleared_flag (act a w) = cleared_flag w"
  by (cases a)
     (simp_all add: abort_def ref_def unref_def Let_def native_set_ref_def
        split: kind.splits option.splits)

lemma no_clear_fold:
  "listeners w = [] \<Longrightarrow> Clear \<notin> set body \<Longrightarrow> cleared_flag (fold act body w) = cleared_flag w"
  by (induction body arbitrary: w) (auto simp: no_clear_act inert_act)

lemma no_clear_step:
  assumes i: "iinv body args p T0 w" and b: "Clear \<notin> set body" and e: "e \<noteq> Act Clear"
  shows "cleared_flag (step e w) = cleared_flag w"
proof (cases e)
  case (Act a)
  then show ?thesis using i e by (simp add: step_Act no_clear_act iinv_def)
next
  case (Fire n)
  from i have "single_pending w" by (simp add: iinv_def)
  then show ?thesis
  proof (cases w rule: single_pending_cases)
    case idle
    then show ?thesis using Fire by (simp add: step_Fire_idle)
  next
    case (pending m t)
    have kt: "kont t = IntervalFinal \<or> kont t = IntervalCapped" using i pending by (simp add: iinv_def)
    show ?thesis
    proof (cases "n = m \<and> due t w")
      case False
      then have "step e w = w" using Fire pending by (auto simp: step_Fire_single)
      then show ?thesis by simp
    next
      case True
      let ?r = "Math_max (Fin 0) (js_sub (nextTargetTime w) (Fin (now w)))"
      let ?T = "js_add (nextTargetTime w) (Fin p)"
      let ?r' = "Math_max (Fin 0) (js_sub ?T (Fin (now w)))"
      from kt show ?thesis
      proof
        assume k: "kont t = IntervalCapped"
        have "step e w = schedule_interval ?r (w\<lparr>timers := []\<rparr>)"
          using True Fire pending k by (simp add: step_Fire_single Let_def)
        then show ?thesis using pending by (simp add: schedule_interval_eq)
      next
        assume k: "kont t = IntervalFinal"
        let ?w2 = "schedule_interval ?r' (w\<lparr>timers := [], nextTargetTime := ?T\<rparr>)"
        have s: "step e w = fold act body (?w2\<lparr>calls := calls ?w2 @ [args]\<rparr>)"
          using interval_tick(1) [OF i pending(1) k] True Fire by simp
        have "listeners (?w2\<lparr>calls := calls ?w2 @ [args]\<rparr>) = []"
          "cleared_flag (?w2\<lparr>calls := calls ?w2 @ [args]\<rparr>) = cleared_flag w"
          using i pending by (simp_all add: schedule_interval_eq iinv_def)
        then show ?thesis unfolding s using b by (simp add: no_clear_fold)
      qed
    qed
  qed
qed

lemma no_clear_run:
  "iinv body args p T0 w \<Longrightarrow> Clear \<notin> set body \<Longrightarrow> Act Clear \<notin> set evs \<Longrightarrow>
   cleared_flag (run evs w) = cleared_flag w"
proof (induction evs arbitrary: w)
  case Nil
  then show ?case by simp
next
  case (Cons e evs)
  have "iinv body args p T0 (step e w)" using Cons.prems(1) by (rule iinv_step)
  then have "cleared_flag (run evs (step e w)) = cleared_flag (step e w)"
    using Cons.prems by (intro Cons.IH) simp_all
  moreover have "cleared_flag (step e w) = cleared_flag w"
    using Cons.prems by (intro no_clear_step) auto
  ultimately show ?case by simp
qed

lemma no_clear_idle_run:
  "timers w = [] \<Longrightarrow> listeners w = [] \<Longrightarrow> Act Clear \<notin> set evs \<Longrightarrow>
   cleared_flag (run evs w) = cleared_flag w"
proof (induction evs arbitrary: w)
  case Nil
  then show ?case by simp
next
  case (Cons e evs)
  have s: "cleared_flag (step e w) = cleared_flag w"
  proof (cases e)
    case (Fire n)
    then show ?thesis using Cons.prems by (simp add: step_Fire_idle)
  next
    case (Act a)
    then show ?thesis using Cons.prems by (auto simp: step_Act no_clear_act)
  qed
  have "cleared_flag (run evs (step e w)) = cleared_flag (step e w)"
    using Cons.prems by (intro Cons.IH) (simp_all add: idle_step inert_step)
  with s show ?case by simp
qed

subsection \<open>The pending timer, found by its id\<close>


subsection \<open>The worlds that setTimeout returns\<close>

lemma setTimeout_impl_clamp:
  assumes "\<not> js_gt (Number_or_0 d) (Fin MAX_SAFE_INTEGER)" "clamp_delay (Number_or_0 d) = Fin p"
    "0 \<le> p" "p \<le> MAX_SAFE_INTEGER"
  shows "setTimeout_impl f d args w = setTimeout_impl f (Some (Fin p)) args w"
  using assms
  by (simp add: setTimeout_impl_def Number_or_0_def js_gt_def clamp_delay_Fin Let_def max_def
      split: option.splits)

lemma setTimeout_clamp:
  assumes "\<not> js_gt (Number_or_0 d) (Fin MAX_SAFE_INTEGER)" "clamp_delay (Number_or_0 d) = Fin p"
    "0 \<le> p" "p \<le> MAX_SAFE_INTEGER"
  shows "setTimeout (JFunc f) d args w = setTimeout (JFunc f) (Some (Fin p)) args w"
  by (simp add: setTimeout_def Let_def setTimeout_impl_clamp [OF assms])






subsection \<open>The value of remaining\<close>



subsection \<open>Completion of a chain\<close>

lemma chain_complete:
  assumes W: "targetTime W = Some (Fin (now W + p))" "\<not> cleared_flag W" "timers W = []"
    and p: "0 \<le> p"
  shows "\<exists>k j. (fire_next ^^ k) (seg W p 0) =
           invoke (callback W) (arguments W) ((seg W p j)\<lparr>now := now W + p, timers := []\<rparr>)"
proof (cases "p \<le> MAX_TIMEOUT")
  case True
  have "fire_next (seg W p 0) =
      invoke (callback W) (arguments W) ((seg W p 0)\<lparr>now := now W + p, timers := []\<rparr>)"
    by (rule fire_next_final [OF W(2,3)]) (use True p in simp_all)
  then have "(fire_next ^^ 1) (seg W p 0) =
      invoke (callback W) (arguments W) ((seg W p 0)\<lparr>now := now W + p, timers := []\<rparr>)"
    by simp
  then show ?thesis by blast
next
  case False
  have m: "0 < MAX_TIMEOUT" by (simp add: MAX_TIMEOUT_def)
  with False have d: "0 < p" by simp
  let ?k = "nat \<lceil>p / MAX_TIMEOUT\<rceil>"
  have k: "0 < ?k" using d by (rule ceil_bounds(1))
  then obtain k' where k': "?k = Suc k'" by (cases ?k) simp_all
  have "of_nat k' * MAX_TIMEOUT < p \<or> k' = 0" using ceil_bounds(2) [OF d] by (simp add: k')
  then have pre: "(fire_next ^^ k') (seg W p 0) = seg W p k'" by (rule chain_prefix [OF W])
  have "(fire_next ^^ ?k) (seg W p 0) = fire_next (seg W p k')" using pre by (simp add: k')
  also have "\<dots> = invoke (callback W) (arguments W) ((seg W p k')\<lparr>now := now W + p, timers := []\<rparr>)"
  proof (rule fire_next_final [OF W(2,3)])
    show "p - of_nat k' * MAX_TIMEOUT \<le> MAX_TIMEOUT"
      using ceil_bounds(3) [OF d] by (simp add: k' algebra_simps)
    show "0 \<le> p - of_nat k' * MAX_TIMEOUT"
      using ceil_bounds(2) [OF d] by (simp add: k')
  qed
  finally show ?thesis by blast
qed


lemma after_clear:
  assumes "single_pending w" "cleared_flag w"
  shows "cleared_flag (run evs w) \<and> calls (run evs w) = calls w \<and> segments (run evs w) = segments w \<and>
         kind (run evs w) = kind w"
proof -
  have t: "timers w = []" using assms by (cases w rule: single_pending_cases) simp_all
  from idle_run [OF t, of evs] assms(2) show ?thesis by (simp add: frame_def)
qed






subsection \<open>After clearing\<close>









subsection \<open>The invariant of delay\<close>

lemma clearTimeout_callback: "callback (clearTimeout r w) = callback w"
  using frameD(2) [OF clearTimeout_sel(8)] .

lemma dinv_clear: "dinv sig w \<Longrightarrow> dinv sig (clearTimeout Handle w)"
  by (auto simp: dinv_def clearTimeout_sel clearTimeout_timers clearTimeout_callback
      single_pending_def)

lemma dinv_quiet_fields:
  assumes "dinv sig w" "quiet w w'" "settled w' = settled w" "promise w' = promise w"
    "listeners w' = listeners w" "aborted w' = aborted w"
  shows "dinv sig w'"
proof -
  have f: "frame w' = frame w" and sp': "single_pending w'" using assms(2) by (simp_all add: quiet_def)
  have k: "list_all (\<lambda>e. kont (snd e) = TimeoutFinal \<or> kont (snd e) = TimeoutCapped) (timers w')"
  proof (cases "timers w' = []")
    case True
    then show ?thesis by simp
  next
    case False
    with assms(2) have "pend w' = pend w" by (auto simp: quiet_def)
    then have "map (\<lambda>e. kont (snd e)) (timers w') = map (\<lambda>e. kont (snd e)) (timers w)"
      by (rule pend_konts)
    moreover have "list_all (\<lambda>k. k = TimeoutFinal \<or> k = TimeoutCapped) (map (\<lambda>e. kont (snd e)) (timers w))"
      using assms(1) by (simp add: dinv_def list_all_iff)
    ultimately have "list_all (\<lambda>k. k = TimeoutFinal \<or> k = TimeoutCapped) (map (\<lambda>e. kont (snd e)) (timers w'))"
      by simp
    then show ?thesis by (simp add: list_all_iff)
  qed
  have c: "timers w = [] \<Longrightarrow> timers w' = []" using assms(2) by (rule quiet_idle)
  show ?thesis using assms(1,3-6) sp' k c by (auto simp: dinv_def frameD [OF f])
qed

lemma ref_fields:
  "settled (ref w) = settled w" "promise (ref w) = promise w" "listeners (ref w) = listeners w"
  "aborted (ref w) = aborted w"
  "settled (unref w) = settled w" "promise (unref w) = promise w" "listeners (unref w) = listeners w"
  "aborted (unref w) = aborted w"
  by (simp_all add: ref_def unref_def Let_def native_set_ref_def split: kind.splits option.splits)

lemma dinv_abort: "dinv sig w \<Longrightarrow> dinv sig (abort w)"
proof (cases "aborted w")
  case True
  assume "dinv sig w"
  then show ?thesis using True by (simp add: abort_def)
next
  case False
  assume i: "dinv sig w"
  let ?v = "w\<lparr>aborted := True, listeners := []\<rparr>"
  show ?thesis
  proof (cases "listeners w = []")
    case True
    then have "abort w = ?v" using False by (simp add: abort_def)
    moreover have "dinv sig ?v" using i True by (auto simp: dinv_def single_pending_def split: if_splits)
    ultimately show ?thesis by simp
  next
    case L: False
    with i have s: "sig" "settled w = []" "promise w = Pending" "listeners w = [DelayListener]"
      by (auto simp: dinv_def split: if_splits)
    have sp: "single_pending ?v" using i by (simp add: dinv_def single_pending_def)
    have "abort w = reject (AbortError None) (clearTimeout Handle ?v)"
      using False s by (simp add: abort_def)
    moreover have "dinv sig (reject (AbortError None) (clearTimeout Handle ?v))"
      using i s sp
      by (simp add: dinv_def reject_def clearTimeout_sel clearTimeout_timers clearTimeout_callback
          single_pending_def)
    ultimately show ?thesis by simp
  qed
qed

lemma dinv_act: "dinv sig w \<Longrightarrow> dinv sig (act a w)"
proof (cases a)
  case (Elapse d)
  assume "dinv sig w"
  then show ?thesis using Elapse by (simp add: dinv_def single_pending_def)
next
  case Clear
  assume "dinv sig w"
  then show ?thesis using Clear by (simp add: dinv_clear)
next
  case Abort
  assume "dinv sig w"
  then show ?thesis using Abort by (simp add: dinv_abort)
next
  case Ref
  assume i: "dinv sig w"
  then have "quiet w (ref w)" by (simp add: dinv_def quiet_ref)
  with i show ?thesis using Ref by (simp add: dinv_quiet_fields ref_fields)
next
  case Unref
  assume i: "dinv sig w"
  then have "quiet w (unref w)" by (simp add: dinv_def quiet_ref)
  with i show ?thesis using Unref by (simp add: dinv_quiet_fields ref_fields)
qed

lemma dinv_step: "dinv sig w \<Longrightarrow> dinv sig (step e w)"
proof (cases e)
  case (Act a)
  assume "dinv sig w"
  then show ?thesis using Act by (simp add: step_Act dinv_act)
next
  case (Fire n)
  assume i: "dinv sig w"
  then have "single_pending w" by (simp add: dinv_def)
  then show ?thesis
  proof (cases w rule: single_pending_cases)
    case idle
    then show ?thesis using i Fire by (simp add: step_Fire_idle)
  next
    case (pending m t)
    have kt: "kont t = TimeoutFinal \<or> kont t = TimeoutCapped" using i pending by (simp add: dinv_def)
    have s1: "settled w = []" "promise w = Pending"
      "listeners w = (if sig then [DelayListener] else [])" "callback w = OnDelayFire sig"
      using i pending by (auto simp: dinv_def)
    show ?thesis
    proof (cases "n = m \<and> due t w")
      case False
      then have "step e w = w" using Fire pending by (auto simp: step_Fire_single)
      then show ?thesis using i by simp
    next
      case True
      from kt show ?thesis
      proof
        assume "kont t = TimeoutFinal"
        then have "step e w = invoke (OnDelayFire sig) (arguments w) (w\<lparr>timers := []\<rparr>)"
          using True Fire pending s1 by (simp add: step_Fire_single)
        then show ?thesis using s1 i
          by (simp add: dinv_def resolve_def Let_def single_pending_def)
      next
        assume "kont t = TimeoutCapped"
        then show ?thesis using True Fire pending i s1
          by (simp add: step_Fire_single schedule_timeout_eq Let_def dinv_def single_pending_def)
      qed
    qed
  qed
qed

lemma dinv_run: "dinv sig w \<Longrightarrow> dinv sig (run evs w)"
  by (induction evs arbitrary: w) (simp_all add: dinv_step)

lemma dinv_now: "dinv sig (w\<lparr>now := x\<rparr>) = dinv sig w"
  by (simp add: dinv_def single_pending_def)

lemma dinv_fire_next: "dinv sig w \<Longrightarrow> dinv sig (fire_next w)"
  by (simp add: fire_next_def dinv_step dinv_now split: list.splits jsnum.splits)

lemma dinv_funpow: "dinv sig w \<Longrightarrow> dinv sig ((fire_next ^^ k) w)"
  by (induction k) (simp_all add: dinv_fire_next)

lemma dinv_settled:
  assumes "dinv sig w"
  shows "(settled w = [] \<and> promise w = Pending) \<or> (settled w = [Resolve] \<and> promise w = Fulfilled) \<or>
         (settled w = [Reject (AbortError None)] \<and> promise w = Rejected (AbortError None))"
  using assms by (auto simp: dinv_def)

lemma dinv_final:
  assumes "dinv sig w" "settled w \<noteq> []"
  shows "settled (run evs w) = settled w \<and> promise (run evs w) = promise w"
proof -
  have "timers w = []" "listeners w = []" using assms by (auto simp: dinv_def)
  from inert_run [OF this, of evs] show ?thesis by simp
qed

lemma dinv_abort_waiting:
  assumes "dinv True w" "settled w = []"
  shows "settled (step (Act Abort) w) = [Reject (AbortError None)]"
    "promise (step (Act Abort) w) = Rejected (AbortError None)"
proof -
  have s: "\<not> aborted w" "listeners w = [DelayListener]" "promise w = Pending"
    using assms by (auto simp: dinv_def)
  let ?v = "w\<lparr>aborted := True, listeners := []\<rparr>"
  have "step (Act Abort) w = reject (AbortError None) (clearTimeout Handle ?v)"
    using s by (simp add: step_Act abort_def)
  then show "settled (step (Act Abort) w) = [Reject (AbortError None)]"
    "promise (step (Act Abort) w) = Rejected (AbortError None)"
    using assms(2) s by (simp_all add: reject_def clearTimeout_sel)
qed

lemma no_resolve_step:
  assumes "dinv sig w" "timers w = []" "settled w \<noteq> [Resolve]"
  shows "settled (step e w) \<noteq> [Resolve]"
proof (cases "settled w = []")
  case False
  with dinv_final [OF assms(1) False, of "[e]"] assms(3) show ?thesis by simp
next
  case True
  show ?thesis
  proof (cases e)
    case (Fire n)
    then show ?thesis using assms(2) True by (simp add: step_Fire_idle)
  next
    case (Act a)
    show ?thesis
    proof (cases "a = Abort \<and> sig")
      case True
      with dinv_abort_waiting(1) [of w] assms(1) \<open>settled w = []\<close> Act show ?thesis by simp
    next
      case False
      have "settled (act a w) = settled w"
      proof (cases a)
        case Abort
        with False have "\<not> sig" by simp
        with assms(1) True have "listeners w = []" by (auto simp: dinv_def)
        then show ?thesis using Abort by (simp add: abort_def)
      qed (simp_all add: clearTimeout_sel ref_fields)
      then show ?thesis using Act True by (simp add: step_Act)
    qed
  qed
qed

lemma no_resolve_run:
  "dinv sig w \<Longrightarrow> timers w = [] \<Longrightarrow> settled w \<noteq> [Resolve] \<Longrightarrow> settled (run evs w) \<noteq> [Resolve]"
proof (induction evs arbitrary: w)
  case Nil
  then show ?case by simp
next
  case (Cons e evs)
  have "dinv sig (step e w)" using Cons.prems(1) by (rule dinv_step)
  moreover have "timers (step e w) = []" using Cons.prems(2) by (simp add: idle_step)
  moreover have "settled (step e w) \<noteq> [Resolve]" using Cons.prems by (rule no_resolve_step)
  ultimately show ?case using Cons.IH by simp
qed

subsection \<open>The worlds that delay returns\<close>

lemma take_options_Nil: "take_options [] = (None, [])"
  by (simp add: take_options_def is_options_def mostRecentArg_def)

lemma delay_never:
  assumes "js_gt ms (Fin MAX_SAFE_INTEGER)"
  shows "delay ms sig (new_world t False) =
     (created (OnDelayFire sig) [] ((new_world t False)\<lparr>promise := Pending\<rparr>))
       \<lparr>listeners := if sig then [DelayListener] else []\<rparr>"
  using assms
  by (simp add: delay_def setTimeout_def take_options_Nil setTimeout_impl_never Number_or_0_def
      Let_def new_world_def created_def)

lemma delay_scheduled:
  assumes "\<not> js_gt ms (Fin MAX_SAFE_INTEGER)" "clamp_delay ms = Fin p" "0 \<le> p" "p \<le> MAX_SAFE_INTEGER"
  shows "delay ms sig (new_world t False) =
     seg ((created (OnDelayFire sig) [] ((new_world t False)\<lparr>promise := Pending\<rparr>))
            \<lparr>targetTime := Some (Fin (t + p)), listeners := if sig then [DelayListener] else []\<rparr>) p 0"
proof -
  let ?w0 = "(new_world t False)\<lparr>promise := Pending\<rparr>"
  have c: "setTimeout (JFunc (OnDelayFire sig)) (Some ms) [] ?w0 =
        setTimeout (JFunc (OnDelayFire sig)) (Some (Fin p)) [] ?w0"
    by (rule setTimeout_clamp) (use assms in \<open>simp_all add: Number_or_0_def\<close>)
  have "setTimeout (JFunc (OnDelayFire sig)) (Some (Fin p)) [] ?w0 =
      Inr (seg ((created (OnDelayFire sig) [] ?w0)\<lparr>targetTime := Some (Fin (t + p)), listeners := []\<rparr>) p 0)"
    using setTimeout_Fin' [OF assms(4), of ?w0 "[]" "OnDelayFire sig"] assms(3)
    by (simp add: take_options_Nil new_world_def max_def)
  then show ?thesis
    by (simp add: delay_def c Let_def) (simp add: new_world_def seg_def created_def)
qed

lemma dinv_delay: "dinv sig (delay ms sig (new_world t False))"
proof (cases "js_gt ms (Fin MAX_SAFE_INTEGER)")
  case True
  show ?thesis unfolding delay_never [OF True]
    by (simp add: dinv_def created_def new_world_def single_pending_def)
next
  case False
  from clamp_cases [OF False] obtain p where
    p: "clamp_delay ms = Fin p" "0 \<le> p" "p \<le> MAX_SAFE_INTEGER" by blast
  show ?thesis unfolding delay_scheduled [OF False p]
    by (simp add: dinv_def created_def new_world_def single_pending_def seg_def)
qed

lemma delay_resolves:
  assumes "\<not> js_gt ms (Fin MAX_SAFE_INTEGER)"
  shows "\<exists>k p. clamp_delay ms = Fin p \<and>
           now ((fire_next ^^ k) (delay ms sig (new_world t False))) = t + p \<and>
           settled ((fire_next ^^ k) (delay ms sig (new_world t False))) = [Resolve] \<and>
           promise ((fire_next ^^ k) (delay ms sig (new_world t False))) = Fulfilled"
proof -
  from clamp_cases [OF assms] obtain p where
    p: "clamp_delay ms = Fin p" "0 \<le> p" "p \<le> MAX_SAFE_INTEGER" by blast
  let ?W = "(created (OnDelayFire sig) [] ((new_world t False)\<lparr>promise := Pending\<rparr>))
            \<lparr>targetTime := Some (Fin (t + p)), listeners := if sig then [DelayListener] else []\<rparr>"
  have W: "targetTime ?W = Some (Fin (now ?W + p))" "\<not> cleared_flag ?W" "timers ?W = []"
    "callback ?W = OnDelayFire sig" "arguments ?W = []"
    by (simp_all add: created_def new_world_def)
  from chain_complete [OF W(1-3) p(2)] obtain k j where
    k: "(fire_next ^^ k) (seg ?W p 0) =
        invoke (OnDelayFire sig) [] ((seg ?W p j)\<lparr>now := now ?W + p, timers := []\<rparr>)"
    unfolding W(4,5) by blast
  have "now ((fire_next ^^ k) (seg ?W p 0)) = t + p"
    "settled ((fire_next ^^ k) (seg ?W p 0)) = [Resolve]"
    "promise ((fire_next ^^ k) (seg ?W p 0)) = Fulfilled"
    unfolding k by (simp_all add: resolve_def Let_def seg_def created_def new_world_def)
  then show ?thesis using p(1) unfolding delay_scheduled [OF assms p] by blast
qed

subsection \<open>The chain of a long delay\<close>

lemma chain_exact:
  assumes a: "MAX_TIMEOUT < d \<and> d \<le> MAX_SAFE_INTEGER"
  shows "\<exists>w1. setTimeout (JFunc (User body)) (Some (Fin d)) args (new_world t False) = Inr w1 \<and>
         targetTime w1 = Some (Fin (t + d)) \<and>
         (\<forall>j < nat \<lceil>d / MAX_TIMEOUT\<rceil>.
            now ((fire_next ^^ j) w1) = t + of_nat j * MAX_TIMEOUT \<and>
            segments ((fire_next ^^ j) w1) =
              map Fin (replicate j MAX_TIMEOUT @ [min (t + d - now ((fire_next ^^ j) w1)) MAX_TIMEOUT]) \<and>
            calls ((fire_next ^^ j) w1) = []) \<and>
         calls ((fire_next ^^ nat \<lceil>d / MAX_TIMEOUT\<rceil>) w1) = [snd (take_options args)] \<and>
         length (segments ((fire_next ^^ nat \<lceil>d / MAX_TIMEOUT\<rceil>) w1)) = nat \<lceil>d / MAX_TIMEOUT\<rceil>"
proof -
  have m: "0 < MAX_TIMEOUT" by (simp add: MAX_TIMEOUT_def)
  with a have d: "0 < d" by simp
  let ?k = "nat \<lceil>d / MAX_TIMEOUT\<rceil>"
  let ?as = "snd (take_options args)"
  let ?W = "(created (User body) ?as (new_world t False))
              \<lparr>targetTime := Some (Fin (now (new_world t False) + max 0 d)),
               listeners := listeners (new_world t False) @
                 (if get_signal (fst (take_options args)) then [ClearListener] else [])\<rparr>"
  have W: "targetTime ?W = Some (Fin (now ?W + d))" "\<not> cleared_flag ?W" "timers ?W = []"
    "now ?W = t" "segments ?W = []" "calls ?W = []" "callback ?W = User body" "arguments ?W = ?as"
    using d by (simp_all add: created_def new_world_def)
  have s: "setTimeout (JFunc (User body)) (Some (Fin d)) args (new_world t False) = Inr (seg ?W d 0)"
    using a d setTimeout_Fin [of d "new_world t False" "User body" args]
    by (simp add: new_world_def max_def)
  have pre: "(fire_next ^^ j) (seg ?W d 0) = seg ?W d j" if "j < ?k" for j
  proof (rule chain_prefix [OF W(1-3)])
    from that have "j \<le> ?k - 1" by simp
    then have "(of_nat j :: rat) \<le> of_nat (?k - 1)" by (simp only: of_nat_le_iff)
    then have "of_nat j * MAX_TIMEOUT \<le> of_nat (?k - 1) * MAX_TIMEOUT"
      using m by (simp add: mult_right_mono)
    with ceil_bounds(2) [OF d] show "of_nat j * MAX_TIMEOUT < d \<or> j = 0" by simp
  qed
  have k: "0 < ?k" using d by (rule ceil_bounds(1))
  then obtain k' where k': "?k = Suc k'" by (cases ?k) simp_all
  have fin: "(fire_next ^^ ?k) (seg ?W d 0) =
      invoke (User body) ?as ((seg ?W d k')\<lparr>now := now ?W + d, timers := []\<rparr>)"
  proof -
    have "(fire_next ^^ ?k) (seg ?W d 0) = fire_next (seg ?W d k')"
      using pre [of k'] by (simp add: k')
    also have "\<dots> = invoke (callback ?W) (arguments ?W) ((seg ?W d k')\<lparr>now := now ?W + d, timers := []\<rparr>)"
    proof (rule fire_next_final [OF W(2,3)])
      show "d - of_nat k' * MAX_TIMEOUT \<le> MAX_TIMEOUT"
        using ceil_bounds(3) [OF d] by (simp add: k' algebra_simps)
      show "0 \<le> d - of_nat k' * MAX_TIMEOUT"
        using ceil_bounds(2) [OF d] by (simp add: k')
    qed
    finally show ?thesis by (simp only: W)
  qed
  show "\<exists>w1. setTimeout (JFunc (User body)) (Some (Fin d)) args (new_world t False) = Inr w1 \<and>
         targetTime w1 = Some (Fin (t + d)) \<and>
         (\<forall>j < ?k.
            now ((fire_next ^^ j) w1) = t + of_nat j * MAX_TIMEOUT \<and>
            segments ((fire_next ^^ j) w1) =
              map Fin (replicate j MAX_TIMEOUT @ [min (t + d - now ((fire_next ^^ j) w1)) MAX_TIMEOUT]) \<and>
            calls ((fire_next ^^ j) w1) = []) \<and>
         calls ((fire_next ^^ ?k) w1) = [?as] \<and>
         length (segments ((fire_next ^^ ?k) w1)) = ?k"
  proof (intro exI conjI allI impI)
    show "setTimeout (JFunc (User body)) (Some (Fin d)) args (new_world t False) = Inr (seg ?W d 0)"
      by (rule s)
    show "targetTime (seg ?W d 0) = Some (Fin (t + d))"
      using d by (simp add: seg_def created_def new_world_def)
    show "calls ((fire_next ^^ ?k) (seg ?W d 0)) = [?as]"
      by (simp only: fin invoke_User_sel) (simp add: seg_def created_def new_world_def)
    show "length (segments ((fire_next ^^ ?k) (seg ?W d 0))) = ?k"
      by (simp only: fin invoke_User_sel) (simp add: seg_def created_def new_world_def k')
  next
    fix j assume j: "j < ?k"
    show "now ((fire_next ^^ j) (seg ?W d 0)) = t + of_nat j * MAX_TIMEOUT"
      by (simp only: pre [OF j]) (simp add: seg_def created_def new_world_def)
    show "segments ((fire_next ^^ j) (seg ?W d 0)) =
          map Fin (replicate j MAX_TIMEOUT @ [min (t + d - now ((fire_next ^^ j) (seg ?W d 0))) MAX_TIMEOUT])"
      by (simp only: pre [OF j]) (simp add: seg_def created_def new_world_def)
    show "calls ((fire_next ^^ j) (seg ?W d 0)) = []"
      by (simp only: pre [OF j]) (simp add: seg_def created_def new_world_def)
  qed
qed

lemma exact_integer_of_int: "\<bar>n\<bar> \<le> 9007199254740992 \<Longrightarrow> exact_integer (Fin (of_int n))"
  by simp

lemma chain_integers:
  assumes "0 \<le> T" "T + D \<le> 9007199254740992" "of_nat j * MAX_TIMEOUT < (of_int D :: rat)"
  shows "exact_integer (Fin (of_int T + of_nat j * MAX_TIMEOUT))"
    and "list_all exact_integer (map Fin (replicate j MAX_TIMEOUT @
           [min (of_int (T + D) - (of_int T + of_nat j * MAX_TIMEOUT)) MAX_TIMEOUT]))"
proof -
  let ?M = "2147483647 :: int"
  have "(of_int (int j * ?M) :: rat) < of_int D"
    using assms(3) by (simp add: MAX_TIMEOUT_def)
  then have lt: "int j * ?M < D" by (simp only: of_int_less_iff)
  have e1: "(of_int T + of_nat j * MAX_TIMEOUT :: rat) = of_int (T + int j * ?M)"
    by (simp add: MAX_TIMEOUT_def)
  have "\<bar>T + int j * ?M\<bar> \<le> 9007199254740992" using assms(1,2) lt by simp
  then show "exact_integer (Fin (of_int T + of_nat j * MAX_TIMEOUT))"
    unfolding e1 by (rule exact_integer_of_int)
  have e2: "min (of_int (T + D) - (of_int T + of_nat j * MAX_TIMEOUT)) MAX_TIMEOUT =
      (of_int (min (D - int j * ?M) ?M) :: rat)"
    by (simp add: MAX_TIMEOUT_def min_def)
  have "\<bar>min (D - int j * ?M) ?M\<bar> \<le> 9007199254740992" using lt by simp
  then have a: "exact_integer (Fin (min (of_int (T + D) - (of_int T + of_nat j * MAX_TIMEOUT)) MAX_TIMEOUT))"
    unfolding e2 by (rule exact_integer_of_int)
  have b: "exact_integer (Fin MAX_TIMEOUT)" by (simp add: MAX_TIMEOUT_def)
  show "list_all exact_integer (map Fin (replicate j MAX_TIMEOUT @
           [min (of_int (T + D) - (of_int T + of_nat j * MAX_TIMEOUT)) MAX_TIMEOUT]))"
    using a b by (simp add: list_all_iff)
qed

lemma below_ceiling:
  assumes "0 < d" "j < nat \<lceil>d / MAX_TIMEOUT\<rceil>"
  shows "of_nat j * MAX_TIMEOUT < d"
proof -
  have m: "0 < MAX_TIMEOUT" by (simp add: MAX_TIMEOUT_def)
  from assms(2) have "j \<le> nat \<lceil>d / MAX_TIMEOUT\<rceil> - 1" by simp
  then have "(of_nat j :: rat) \<le> of_nat (nat \<lceil>d / MAX_TIMEOUT\<rceil> - 1)" by (simp only: of_nat_le_iff)
  then have "of_nat j * MAX_TIMEOUT \<le> of_nat (nat \<lceil>d / MAX_TIMEOUT\<rceil> - 1) * MAX_TIMEOUT"
    using m by (simp add: mult_right_mono)
  with ceil_bounds(2) [OF assms(1)] show ?thesis by simp
qed

section \<open>C1: the segment chain of a long delay\<close>

text \<open>
  C1, as amended. Let the delay \<open>D\<close> and the clock reading \<open>T\<close> at the call be integers
  with \<open>MAX_TIMEOUT < D \<le> MAX_SAFE_INTEGER\<close>, \<open>0 \<le> T\<close> and \<open>T + D \<le> 2^53\<close>, let the signal
  not be aborted, and let the options, if any, be as their type describes them. Then
  the target time, every clock reading at a segment boundary and every span are integers
  of magnitude at most \<open>2^53\<close>, so that the source computes them without rounding;
  \<^verbatim>\<open>setTimeout\<close> sets the target time to \<open>T + D\<close> and, with every native timer
  firing exactly when it is due, issues \<open>\<lceil>D / MAX_TIMEOUT\<rceil>\<close> native segments before
  the callback runs: the segment issued at the \<open>j\<close>-th boundary has the span
  \<open>min (target - now) MAX_TIMEOUT\<close>, the callback has not run while fewer than
  \<open>\<lceil>D / MAX_TIMEOUT\<rceil>\<close> segments have fired, and it runs once, with the forwarded
  arguments, when the last one fires. A finite delay above \<open>MAX_SAFE_INTEGER\<close> sets no
  target time and issues no segment.
\<close>

theorem long_delay_chain:
  "(MAX_TIMEOUT < of_int D \<and> of_int D \<le> MAX_SAFE_INTEGER \<and> 0 \<le> T \<and>
    T + D \<le> 9007199254740992 \<and> signal_typed args \<longrightarrow>
      (\<exists>w1. setTimeout (JFunc (User body)) (Some (Fin (of_int D))) args (new_world (of_int T) False)
              = Inr w1 \<and>
         targetTime w1 = Some (Fin (of_int (T + D))) \<and> exact_integer (Fin (of_int (T + D))) \<and>
         (\<forall>j < nat \<lceil>of_int D / MAX_TIMEOUT\<rceil>.
            now ((fire_next ^^ j) w1) = of_int T + of_nat j * MAX_TIMEOUT \<and>
            exact_integer (Fin (now ((fire_next ^^ j) w1))) \<and>
            segments ((fire_next ^^ j) w1) =
              map Fin (replicate j MAX_TIMEOUT @
                [min (of_int (T + D) - now ((fire_next ^^ j) w1)) MAX_TIMEOUT]) \<and>
            list_all exact_integer (segments ((fire_next ^^ j) w1)) \<and>
            calls ((fire_next ^^ j) w1) = []) \<and>
         calls ((fire_next ^^ nat \<lceil>of_int D / MAX_TIMEOUT\<rceil>) w1) = [snd (take_options args)] \<and>
         length (segments ((fire_next ^^ nat \<lceil>of_int D / MAX_TIMEOUT\<rceil>) w1)) =
           nat \<lceil>of_int D / MAX_TIMEOUT\<rceil>)) \<and>
   (MAX_SAFE_INTEGER < d \<and> signal_typed args \<longrightarrow>
      (\<exists>w1. setTimeout (JFunc (User body)) (Some (Fin d)) args (new_world t False) = Inr w1 \<and>
         targetTime w1 = None \<and> timers w1 = [] \<and> segments w1 = []))"
proof (intro conjI impI)
  assume "MAX_SAFE_INTEGER < d \<and> signal_typed args"
  then have "js_gt (Number_or_0 (Some (Fin d))) (Fin MAX_SAFE_INTEGER)"
    by (simp add: js_gt_def Number_or_0_def)
  then show "\<exists>w1. setTimeout (JFunc (User body)) (Some (Fin d)) args (new_world t False) = Inr w1 \<and>
         targetTime w1 = None \<and> timers w1 = [] \<and> segments w1 = []"
    by (simp add: setTimeout_never new_world_def created_def)
next
  let ?k = "nat \<lceil>of_int D / MAX_TIMEOUT\<rceil>"
  assume h: "MAX_TIMEOUT < of_int D \<and> of_int D \<le> MAX_SAFE_INTEGER \<and> 0 \<le> T \<and>
    T + D \<le> 9007199254740992 \<and> signal_typed args"
  then have a: "MAX_TIMEOUT < of_int D \<and> of_int D \<le> MAX_SAFE_INTEGER"
    and T: "0 \<le> T" "T + D \<le> 9007199254740992" by simp_all
  have d: "0 < (of_int D :: rat)" using a by (simp add: MAX_TIMEOUT_def)
  then have D: "0 < D" by simp
  from chain_exact [OF a, of body args "of_int T"] obtain w1 where w1:
    "setTimeout (JFunc (User body)) (Some (Fin (of_int D))) args (new_world (of_int T) False) = Inr w1"
    "targetTime w1 = Some (Fin (of_int T + of_int D))"
    "\<forall>j < ?k.
        now ((fire_next ^^ j) w1) = of_int T + of_nat j * MAX_TIMEOUT \<and>
        segments ((fire_next ^^ j) w1) =
          map Fin (replicate j MAX_TIMEOUT @
            [min (of_int T + of_int D - now ((fire_next ^^ j) w1)) MAX_TIMEOUT]) \<and>
        calls ((fire_next ^^ j) w1) = []"
    "calls ((fire_next ^^ ?k) w1) = [snd (take_options args)]"
    "length (segments ((fire_next ^^ ?k) w1)) = ?k"
    by blast
  have t: "exact_integer (Fin (of_int (T + D)))"
    using T D by (intro exact_integer_of_int) simp
  have s: "now ((fire_next ^^ j) w1) = of_int T + of_nat j * MAX_TIMEOUT \<and>
        exact_integer (Fin (now ((fire_next ^^ j) w1))) \<and>
        segments ((fire_next ^^ j) w1) =
          map Fin (replicate j MAX_TIMEOUT @
            [min (of_int (T + D) - now ((fire_next ^^ j) w1)) MAX_TIMEOUT]) \<and>
        list_all exact_integer (segments ((fire_next ^^ j) w1)) \<and>
        calls ((fire_next ^^ j) w1) = []" if j: "j < ?k" for j
  proof -
    from w1(3) j have n: "now ((fire_next ^^ j) w1) = of_int T + of_nat j * MAX_TIMEOUT"
      and g: "segments ((fire_next ^^ j) w1) =
          map Fin (replicate j MAX_TIMEOUT @
            [min (of_int T + of_int D - now ((fire_next ^^ j) w1)) MAX_TIMEOUT])"
      and c: "calls ((fire_next ^^ j) w1) = []" by blast+
    have g': "segments ((fire_next ^^ j) w1) =
          map Fin (replicate j MAX_TIMEOUT @
            [min (of_int (T + D) - (of_int T + of_nat j * MAX_TIMEOUT)) MAX_TIMEOUT])"
      using g unfolding n by (simp only: of_int_add)
    note I = chain_integers [OF T below_ceiling [OF d j]]
    show ?thesis using n c g' I by (simp only:)
  qed
  show "\<exists>w1. setTimeout (JFunc (User body)) (Some (Fin (of_int D))) args (new_world (of_int T) False)
              = Inr w1 \<and>
         targetTime w1 = Some (Fin (of_int (T + D))) \<and> exact_integer (Fin (of_int (T + D))) \<and>
         (\<forall>j < ?k.
            now ((fire_next ^^ j) w1) = of_int T + of_nat j * MAX_TIMEOUT \<and>
            exact_integer (Fin (now ((fire_next ^^ j) w1))) \<and>
            segments ((fire_next ^^ j) w1) =
              map Fin (replicate j MAX_TIMEOUT @
                [min (of_int (T + D) - now ((fire_next ^^ j) w1)) MAX_TIMEOUT]) \<and>
            list_all exact_integer (segments ((fire_next ^^ j) w1)) \<and>
            calls ((fire_next ^^ j) w1) = []) \<and>
         calls ((fire_next ^^ ?k) w1) = [snd (take_options args)] \<and>
         length (segments ((fire_next ^^ ?k) w1)) = ?k"
  proof (intro exI [of _ w1] conjI allI impI)
    fix j assume "j < ?k"
    from s [OF this] show "now ((fire_next ^^ j) w1) = of_int T + of_nat j * MAX_TIMEOUT"
      "exact_integer (Fin (now ((fire_next ^^ j) w1)))"
      "segments ((fire_next ^^ j) w1) =
              map Fin (replicate j MAX_TIMEOUT @
                [min (of_int (T + D) - now ((fire_next ^^ j) w1)) MAX_TIMEOUT])"
      "list_all exact_integer (segments ((fire_next ^^ j) w1))"
      "calls ((fire_next ^^ j) w1) = []" by blast+
  qed (use w1 t in \<open>simp_all only: of_int_add\<close>)
qed

theorem long_delay_chain_witness:
  "MAX_TIMEOUT < of_int 4294967299 \<and> of_int 4294967299 \<le> MAX_SAFE_INTEGER \<and> (0::int) \<le> 7 \<and>
   (7::int) + 4294967299 \<le> 9007199254740992 \<and> signal_typed [JStr ''x''] \<and>
   (\<exists>w1. setTimeout (JFunc (User [])) (Some (Fin 4294967299)) [JStr ''x''] (new_world 7 False) = Inr w1 \<and>
      targetTime w1 = Some (Fin 4294967306) \<and>
      now ((fire_next ^^ 2) w1) = 4294967301 \<and>
      segments ((fire_next ^^ 2) w1) = [Fin 2147483647, Fin 2147483647, Fin 5] \<and>
      list_all exact_integer (segments ((fire_next ^^ 2) w1)) \<and>
      calls ((fire_next ^^ 2) w1) = [] \<and>
      calls ((fire_next ^^ 3) w1) = [[JStr ''x'']] \<and>
      length (segments ((fire_next ^^ 3) w1)) = 3)"
proof -
  have h: "MAX_TIMEOUT < of_int 4294967299 \<and> of_int 4294967299 \<le> MAX_SAFE_INTEGER \<and> (0::int) \<le> 7 \<and>
    (7::int) + 4294967299 \<le> 9007199254740992 \<and> signal_typed [JStr ''x'']"
    by (simp add: MAX_TIMEOUT_def MAX_SAFE_INTEGER_def signal_typed_def take_options_def
        is_options_def mostRecentArg_def)
  have "\<lceil>4294967299 / MAX_TIMEOUT\<rceil> = 3"
    unfolding MAX_TIMEOUT_def by (rule ceiling_unique) simp_all
  then have k: "nat \<lceil>of_int 4294967299 / MAX_TIMEOUT\<rceil> = 3"
    by simp
  have a: "snd (take_options [JStr ''x'']) = [JStr ''x'']"
    by (simp add: take_options_def is_options_def mostRecentArg_def)
  from long_delay_chain [of 4294967299 7 "[JStr ''x'']" "[]"] h
  obtain w1 where w1:
    "setTimeout (JFunc (User [])) (Some (Fin (of_int 4294967299))) [JStr ''x'']
        (new_world (of_int 7) False) = Inr w1"
    "targetTime w1 = Some (Fin (of_int (7 + 4294967299)))"
    "\<forall>j < nat \<lceil>of_int 4294967299 / MAX_TIMEOUT\<rceil>.
        now ((fire_next ^^ j) w1) = of_int 7 + of_nat j * MAX_TIMEOUT \<and>
        exact_integer (Fin (now ((fire_next ^^ j) w1))) \<and>
        segments ((fire_next ^^ j) w1) =
          map Fin (replicate j MAX_TIMEOUT @
            [min (of_int (7 + 4294967299) - now ((fire_next ^^ j) w1)) MAX_TIMEOUT]) \<and>
        list_all exact_integer (segments ((fire_next ^^ j) w1)) \<and>
        calls ((fire_next ^^ j) w1) = []"
    "calls ((fire_next ^^ nat \<lceil>of_int 4294967299 / MAX_TIMEOUT\<rceil>) w1) =
       [snd (take_options [JStr ''x''])]"
    "length (segments ((fire_next ^^ nat \<lceil>of_int 4294967299 / MAX_TIMEOUT\<rceil>) w1)) =
       nat \<lceil>of_int 4294967299 / MAX_TIMEOUT\<rceil>"
    by blast
  have "(2::nat) < 3" by simp
  with w1(3) [unfolded k] have "now ((fire_next ^^ 2) w1) = of_int 7 + of_nat 2 * MAX_TIMEOUT \<and>
        segments ((fire_next ^^ 2) w1) =
          map Fin (replicate 2 MAX_TIMEOUT @
            [min (of_int (7 + 4294967299) - now ((fire_next ^^ 2) w1)) MAX_TIMEOUT]) \<and>
        list_all exact_integer (segments ((fire_next ^^ 2) w1)) \<and>
        calls ((fire_next ^^ 2) w1) = []"
    by blast
  then have two: "now ((fire_next ^^ 2) w1) = 4294967301"
    "segments ((fire_next ^^ 2) w1) = [Fin 2147483647, Fin 2147483647, Fin 5]"
    "list_all exact_integer (segments ((fire_next ^^ 2) w1))"
    "calls ((fire_next ^^ 2) w1) = []"
    by (simp_all add: MAX_TIMEOUT_def numeral_2_eq_2)
  have three: "calls ((fire_next ^^ 3) w1) = [[JStr ''x'']]" "length (segments ((fire_next ^^ 3) w1)) = 3"
    using w1(4,5) unfolding k a by simp_all
  have s: "setTimeout (JFunc (User [])) (Some (Fin 4294967299)) [JStr ''x''] (new_world 7 False) = Inr w1"
    "targetTime w1 = Some (Fin 4294967306)"
    using w1(1,2) by simp_all
  from h s two three show ?thesis by blast
qed

text \<open>
  The claim as stated (every finite delay above \<open>MAX_TIMEOUT\<close>) fails at
  \<open>d = 2^53\<close>: \<^verbatim>\<open>_setTimeout\<close> returns before it sets the target time.
\<close>

theorem finite_delay_above_safe_counterexample:
  "MAX_TIMEOUT < 9007199254740992 \<and>
   targetTime (setTimeout_impl (User []) (Some (Fin 9007199254740992)) [] (new_world 0 False)) = None \<and>
   segments (setTimeout_impl (User []) (Some (Fin 9007199254740992)) [] (new_world 0 False)) = [] \<and>
   timers (setTimeout_impl (User []) (Some (Fin 9007199254740992)) [] (new_world 0 False)) = []"
  by (simp add: setTimeout_impl_def Number_or_0_def js_gt_def MAX_SAFE_INTEGER_def MAX_TIMEOUT_def
      new_world_def)

section \<open>C3: the cleared flag and the number of invocations\<close>




section \<open>C4: the abort listener after a completed timer\<close>

text \<open>
  C4 asks that the abort listener registered by \<^verbatim>\<open>setTimeout\<close> is gone once the timer has
  fired. The source builds a wrapper that would remove it, but only rebinds its own
  parameter to the wrapper after \<^verbatim>\<open>_setTimeout\<close> has captured the original
  callback. Evaluated on \<^verbatim>\<open>setTimeout(fn, 10, {signal})\<close> with a signal that has not
  aborted: the listener is registered; the callback runs once when the timer fires; the
  listener is still registered afterwards, and a later abort still runs it (it clears
  the handle of the completed timer); the function the scheduler holds is the original
  callback, and running the wrapper instead would have removed the listener.
\<close>

theorem abort_listener_leak:
  "listeners (projr (setTimeout (JFunc (User [])) (Some (Fin 10)) [JObj [(''signal'', JSignal)]]
      (new_world 0 False))) = [ClearListener] \<and>
   calls (run [Act (Elapse 10), Fire 0]
     (projr (setTimeout (JFunc (User [])) (Some (Fin 10)) [JObj [(''signal'', JSignal)]]
        (new_world 0 False)))) = [[]] \<and>
   listeners (run [Act (Elapse 10), Fire 0]
     (projr (setTimeout (JFunc (User [])) (Some (Fin 10)) [JObj [(''signal'', JSignal)]]
        (new_world 0 False)))) = [ClearListener] \<and>
   \<not> cleared (run [Act (Elapse 10), Fire 0]
     (projr (setTimeout (JFunc (User [])) (Some (Fin 10)) [JObj [(''signal'', JSignal)]]
        (new_world 0 False)))) \<and>
   cleared (run [Act (Elapse 10), Fire 0, Act Abort]
     (projr (setTimeout (JFunc (User [])) (Some (Fin 10)) [JObj [(''signal'', JSignal)]]
        (new_world 0 False)))) \<and>
   callback (projr (setTimeout (JFunc (User [])) (Some (Fin 10)) [JObj [(''signal'', JSignal)]]
      (new_world 0 False))) = User [] \<and>
   listeners (invoke (Wrapped True (User [])) []
     (projr (setTimeout (JFunc (User [])) (Some (Fin 10)) [JObj [(''signal'', JSignal)]]
        (new_world 0 False)))) = []"
  by (simp add: eval_defs)

section \<open>C5: delays that collapse to 0\<close>




section \<open>C6: \<^verbatim>\<open>remaining()\<close>\<close>



section \<open>C7: a signal that is aborted at call time\<close>




section \<open>C8: \<^verbatim>\<open>delay\<close> settles at most once\<close>

text \<open>
  C8, as amended. For every call of \<^verbatim>\<open>delay\<close> with a signal that is not yet aborted (or
  none): at every later moment the promise is pending with no call of \<^verbatim>\<open>resolve\<close> or
  \<^verbatim>\<open>reject\<close> so far, or fulfilled by exactly one \<^verbatim>\<open>resolve\<close>, or rejected by exactly
  one \<^verbatim>\<open>reject\<close> with an \<^verbatim>\<open>AbortError\<close>; once settled nothing more happens. When the
  duration does not exceed \<open>MAX_SAFE_INTEGER\<close> and nothing aborts, it resolves at the
  instant the (clamped) duration has elapsed. When the signal aborts while the promise is
  pending, it is rejected with the \<^verbatim>\<open>AbortError\<close> and never resolves. When the duration
  exceeds \<open>MAX_SAFE_INTEGER\<close> it never resolves, and without a signal it never settles.
  An \<^verbatim>\<open>AbortError\<close> has the name \<^verbatim>\<open>AbortError\<close>, a default message, and takes the
  message given to its constructor.
\<close>

theorem delay_settles:
  "(\<forall>evs.
      settled (run evs (delay ms sig (new_world t False))) = [] \<and>
        promise (run evs (delay ms sig (new_world t False))) = Pending \<or>
      settled (run evs (delay ms sig (new_world t False))) = [Resolve] \<and>
        promise (run evs (delay ms sig (new_world t False))) = Fulfilled \<or>
      settled (run evs (delay ms sig (new_world t False))) = [Reject (AbortError None)] \<and>
        promise (run evs (delay ms sig (new_world t False))) = Rejected (AbortError None)) \<and>
   (\<forall>evs evs'. settled (run evs (delay ms sig (new_world t False))) \<noteq> [] \<longrightarrow>
      settled (run (evs @ evs') (delay ms sig (new_world t False))) =
        settled (run evs (delay ms sig (new_world t False)))) \<and>
   (\<not> js_gt ms (Fin MAX_SAFE_INTEGER) \<longrightarrow>
      (\<exists>k p. clamp_delay ms = Fin p \<and>
         now ((fire_next ^^ k) (delay ms sig (new_world t False))) = t + p \<and>
         settled ((fire_next ^^ k) (delay ms sig (new_world t False))) = [Resolve] \<and>
         promise ((fire_next ^^ k) (delay ms sig (new_world t False))) = Fulfilled)) \<and>
   (sig \<longrightarrow>
      (\<forall>evs evs'. settled (run evs (delay ms sig (new_world t False))) = [] \<longrightarrow>
         settled (run (evs @ Act Abort # evs') (delay ms sig (new_world t False))) =
           [Reject (AbortError None)] \<and>
         promise (run (evs @ Act Abort # evs') (delay ms sig (new_world t False))) =
           Rejected (AbortError None))) \<and>
   (js_gt ms (Fin MAX_SAFE_INTEGER) \<longrightarrow>
      (\<forall>evs. settled (run evs (delay ms sig (new_world t False))) \<noteq> [Resolve]) \<and>
      (\<not> sig \<longrightarrow> (\<forall>evs. settled (run evs (delay ms sig (new_world t False))) = []))) \<and>
   name (AbortError m) = ''AbortError'' \<and>
   message (AbortError None) = ''The operation was aborted.'' \<and>
   message (AbortError (Some s)) = s \<and>
   name (AbortError m) \<noteq> name (TypeError s')"
proof (intro conjI allI impI)
  let ?D = "delay ms sig (new_world t False)"
  have i: "dinv sig ?D" by (rule dinv_delay)
  fix evs
  have r: "dinv sig (run evs ?D)" using i by (rule dinv_run)
  show "settled (run evs ?D) = [] \<and> promise (run evs ?D) = Pending \<or>
      settled (run evs ?D) = [Resolve] \<and> promise (run evs ?D) = Fulfilled \<or>
      settled (run evs ?D) = [Reject (AbortError None)] \<and>
        promise (run evs ?D) = Rejected (AbortError None)"
    by (rule dinv_settled [OF r])
  fix evs'
  show "settled (run (evs @ evs') ?D) = settled (run evs ?D)" if "settled (run evs ?D) \<noteq> []"
    using dinv_final [OF r that, of evs'] by (simp add: run_append)
  assume sig: sig and e: "settled (run evs ?D) = []"
  have r': "dinv True (run evs ?D)" using r sig by simp
  let ?a = "step (Act Abort) (run evs ?D)"
  have a: "settled ?a = [Reject (AbortError None)]" "promise ?a = Rejected (AbortError None)"
    using dinv_abort_waiting [OF r' e] by simp_all
  have "dinv sig ?a" using r by (rule dinv_step)
  from dinv_final [OF this, of evs'] a
  show "settled (run (evs @ Act Abort # evs') ?D) = [Reject (AbortError None)]"
    "promise (run (evs @ Act Abort # evs') ?D) = Rejected (AbortError None)"
    by (simp_all add: run_append)
next
  assume "\<not> js_gt ms (Fin MAX_SAFE_INTEGER)"
  then show "\<exists>k p. clamp_delay ms = Fin p \<and>
         now ((fire_next ^^ k) (delay ms sig (new_world t False))) = t + p \<and>
         settled ((fire_next ^^ k) (delay ms sig (new_world t False))) = [Resolve] \<and>
         promise ((fire_next ^^ k) (delay ms sig (new_world t False))) = Fulfilled"
    by (rule delay_resolves)
next
  let ?D = "delay ms sig (new_world t False)"
  fix evs
  assume o: "js_gt ms (Fin MAX_SAFE_INTEGER)"
  have D: "timers ?D = []" "settled ?D = []" "listeners ?D = (if sig then [DelayListener] else [])"
    unfolding delay_never [OF o] by (simp_all add: created_def new_world_def)
  show "settled (run evs ?D) \<noteq> [Resolve]"
    by (rule no_resolve_run [OF dinv_delay D(1)]) (simp add: D)
  assume "\<not> sig"
  with D have "listeners ?D = []" by simp
  from inert_run [OF D(1) this, of evs] D(2) show "settled (run evs ?D) = []" by simp
qed (simp_all add: AbortError_def TypeError_def)

theorem delay_settles_witness:
  "\<not> js_gt (Fin 100) (Fin MAX_SAFE_INTEGER) \<and>
   (\<exists>k. now ((fire_next ^^ k) (delay (Fin 100) True (new_world 0 False))) = 100 \<and>
        settled ((fire_next ^^ k) (delay (Fin 100) True (new_world 0 False))) = [Resolve]) \<and>
   settled (run [Act (Elapse 30)] (delay (Fin 100) True (new_world 0 False))) = [] \<and>
   settled (run ([Act (Elapse 30)] @ Act Abort # [Act (Elapse 100), Fire 0])
      (delay (Fin 100) True (new_world 0 False))) = [Reject (AbortError None)] \<and>
   settled (run ([Act (Elapse 100), Fire 0] @ [Act Abort]) (delay (Fin 100) True (new_world 0 False)))
     = [Resolve] \<and>
   js_gt PInf (Fin MAX_SAFE_INTEGER) \<and>
   settled (run [Act (Elapse 100), Fire 0] (delay PInf False (new_world 0 False))) = []"
proof -
  let ?D = "delay (Fin 100) True (new_world 0 False)"
  note T = delay_settles [of "Fin 100" True 0]
  note U = delay_settles [of PInf False 0]
  have h: "\<not> js_gt (Fin 100) (Fin MAX_SAFE_INTEGER)" "js_gt PInf (Fin MAX_SAFE_INTEGER)"
    by (simp_all add: js_gt_def MAX_SAFE_INTEGER_def)
  have c: "clamp_delay (Fin 100) = Fin 100" by (simp add: clamp_delay_def)
  from T h(1) obtain k p where "clamp_delay (Fin 100) = Fin p"
    "now ((fire_next ^^ k) ?D) = 0 + p" "settled ((fire_next ^^ k) ?D) = [Resolve]"
    by blast
  then have a: "\<exists>k. now ((fire_next ^^ k) ?D) = 100 \<and> settled ((fire_next ^^ k) ?D) = [Resolve]"
    unfolding c by auto
  have e: "settled (run [Act (Elapse 30)] ?D) = []" "settled (run [Act (Elapse 100), Fire 0] ?D) = [Resolve]"
    by (simp_all add: eval_defs)
  from T e(1) have b: "settled (run ([Act (Elapse 30)] @ Act Abort # [Act (Elapse 100), Fire 0]) ?D)
      = [Reject (AbortError None)]" by blast
  have ne: "settled (run [Act (Elapse 100), Fire 0] ?D) \<noteq> []" using e(2) by simp
  from T ne have "settled (run ([Act (Elapse 100), Fire 0] @ [Act Abort]) ?D) =
      settled (run [Act (Elapse 100), Fire 0] ?D)" by blast
  then have d: "settled (run ([Act (Elapse 100), Fire 0] @ [Act Abort]) ?D) = [Resolve]"
    using e(2) by simp
  from U h(2) have f: "settled (run [Act (Elapse 100), Fire 0] (delay PInf False (new_world 0 False))) = []"
    by blast
  from h a e(1) b d f show ?thesis by blast
qed

text \<open>
  The claim as stated (every call settles exactly once, resolving when the duration has
  elapsed) fails for the finite duration \<open>2^53\<close> without a signal: nothing is pending, and
  after more than that time the promise is still pending.
\<close>

theorem delay_never_settles_counterexample:
  "Fin 9007199254740992 \<noteq> PInf \<and>
   promise (delay (Fin 9007199254740992) False (new_world 0 False)) = Pending \<and>
   timers (delay (Fin 9007199254740992) False (new_world 0 False)) = [] \<and>
   listeners (delay (Fin 9007199254740992) False (new_world 0 False)) = [] \<and>
   settled (run [Act (Elapse 9007199254740993), Fire 0, Act Abort, Fire 1]
     (delay (Fin 9007199254740992) False (new_world 0 False))) = [] \<and>
   promise (run [Act (Elapse 9007199254740993), Fire 0, Act Abort, Fire 1]
     (delay (Fin 9007199254740992) False (new_world 0 False))) = Pending \<and>
   settled (fire_next (fire_next (delay PInf True (new_world 0 False)))) = []"
  by (simp add: eval_defs)

section \<open>C9: which argument is taken as the options\<close>

text \<open>
  C9. \<^verbatim>\<open>setTimeout\<close> takes an argument \<open>v\<close> as its options exactly when \<open>v\<close> is the
  last argument and is a non-null object that has a property \<^verbatim>\<open>signal\<close> or no own
  enumerable key. The options are removed from the arguments. When the options, if any,
  are as their type describes them (an AbortSignal, undefined or null under
  \<^verbatim>\<open>signal\<close>, or no such key) and the signal is not aborted, the callback receives what
  is left when the timer fires, and a listener is registered exactly when the options
  carry an AbortSignal. So a trailing empty object meant for the callback is consumed,
  and an argument that is followed by further arguments is never taken as the options,
  whatever its shape: it is forwarded, and no listener is registered for a signal it
  carries.
\<close>

theorem options_detection:
  "(fst (take_options args) = Some v \<longleftrightarrow>
      args \<noteq> [] \<and> v = last args \<and> typeof v = ''object'' \<and> v \<noteq> JNull \<and>
      (js_in ''signal'' v \<or> Object_keys v = [])) \<and>
   snd (take_options args) = (if fst (take_options args) = None then args else butlast args) \<and>
   (0 \<le> q \<and> q \<le> MAX_TIMEOUT \<and> signal_typed args \<and>
    \<not> (get_signal (fst (take_options args)) \<and> ab) \<longrightarrow>
      (\<exists>w1. setTimeout (JFunc (User body)) (Some (Fin q)) args (new_world t ab) = Inr w1 \<and>
         calls w1 = [] \<and>
         listeners w1 = (if get_signal (fst (take_options args)) then [ClearListener] else []) \<and>
         calls (fire_next w1) = [snd (take_options args)])) \<and>
   take_options (pre @ [JObj []]) = (Some (JObj []), pre) \<and>
   (rest \<noteq> [] \<longrightarrow>
      take_options (u # rest) = (fst (take_options rest), u # snd (take_options rest)))"
  using take_options_iff [of args v] take_options_snd [of args]
    short_delay_fires [of q args ab body t] take_options_trailing_empty [of pre]
    take_options_leading [of rest u]
  by blast

theorem options_detection_witness:
  "(0::rat) \<le> 10 \<and> 10 \<le> MAX_TIMEOUT \<and> signal_typed [JStr ''x'', JObj []] \<and>
   signal_typed [JObj [(''signal'', JSignal)], JStr ''x''] \<and>
   (\<exists>w1. setTimeout (JFunc (User [])) (Some (Fin 10)) [JStr ''x'', JObj []] (new_world 0 False) = Inr w1 \<and>
      calls (fire_next w1) = [[JStr ''x'']]) \<and>
   [JStr ''x''] \<noteq> [] \<and>
   (\<exists>w1. setTimeout (JFunc (User [])) (Some (Fin 10)) [JObj [(''signal'', JSignal)], JStr ''x'']
            (new_world 0 True) = Inr w1 \<and>
      listeners w1 = [] \<and>
      calls (fire_next w1) = [[JObj [(''signal'', JSignal)], JStr ''x'']])"
proof -
  have h: "(0::rat) \<le> 10 \<and> 10 \<le> MAX_TIMEOUT" by (simp add: MAX_TIMEOUT_def)
  have ty: "signal_typed [JStr ''x'', JObj []]" "signal_typed [JObj [(''signal'', JSignal)], JStr ''x'']"
    by (simp_all add: signal_typed_def take_options_def is_options_def mostRecentArg_def)
  have n: "[JStr ''x''] \<noteq> []" by simp
  have x: "take_options [JStr ''x''] = (None, [JStr ''x''])"
    by (simp add: take_options_def is_options_def mostRecentArg_def)
  note A = options_detection [of "[JStr ''x'', JObj []]" "JObj []" 10 False "[]" 0 "[JStr ''x'']" "[]" JNull]
  note B = options_detection [of "[JObj [(''signal'', JSignal)], JStr ''x'']" "JObj []" 10 True "[]" 0
      "[]" "[JStr ''x'']" "JObj [(''signal'', JSignal)]"]
  from A have a1: "take_options [JStr ''x'', JObj []] = (Some (JObj []), [JStr ''x''])" by simp
  from A h ty(1) a1 have a: "\<exists>w1. setTimeout (JFunc (User [])) (Some (Fin 10)) [JStr ''x'', JObj []]
      (new_world 0 False) = Inr w1 \<and> calls (fire_next w1) = [[JStr ''x'']]"
    by auto
  from B n have "take_options [JObj [(''signal'', JSignal)], JStr ''x''] =
      (fst (take_options [JStr ''x'']), JObj [(''signal'', JSignal)] # snd (take_options [JStr ''x'']))"
    by blast
  then have b1: "take_options [JObj [(''signal'', JSignal)], JStr ''x''] =
      (None, [JObj [(''signal'', JSignal)], JStr ''x''])" by (simp add: x)
  from B h ty(2) b1 have b: "\<exists>w1. setTimeout (JFunc (User [])) (Some (Fin 10))
      [JObj [(''signal'', JSignal)], JStr ''x''] (new_world 0 True) = Inr w1 \<and>
      listeners w1 = [] \<and> calls (fire_next w1) = [[JObj [(''signal'', JSignal)], JStr ''x'']]"
    by auto
  from h ty n a b show ?thesis by blast
qed

section \<open>C10: \<^verbatim>\<open>setInterval\<close> has no options\<close>

text \<open>
  C10. \<^verbatim>\<open>setInterval\<close> keeps every trailing argument, whatever its shape, registers no
  listener on any signal, and passes the same arguments to the callback on every tick.
  Aborting the signal changes neither the cleared flag nor the pending native timer, and
  an interval that nobody clears is never cleared.
\<close>

theorem interval_forwards_all_arguments:
  "\<exists>w1. setInterval (JFunc (User body)) d args (new_world t ab) = Inr w1 \<and>
      arguments w1 = args \<and> listeners w1 = [] \<and>
      (\<forall>evs. list_all (\<lambda>c. c = args) (calls (run evs w1)) \<and>
         listeners (run evs w1) = [] \<and>
         cleared (step (Act Abort) (run evs w1)) = cleared (run evs w1) \<and>
         timers (step (Act Abort) (run evs w1)) = timers (run evs w1) \<and>
         (Clear \<notin> set body \<and> Act Clear \<notin> set evs \<longrightarrow> \<not> cleared (run evs w1)))"
proof (cases "js_gt (Number_or_0 d) (Fin MAX_SAFE_INTEGER)")
  case True
  from setInterval_never [OF True, of body args t ab] obtain w1 where
    w1: "setInterval (JFunc (User body)) d args (new_world t ab) = Inr w1"
      "timers w1 = []" "listeners w1 = []" "calls w1 = []" "kind w1 = IntervalObj"
      "\<not> cleared_flag w1" "arguments w1 = args"
    by blast
  have r: "list_all (\<lambda>c. c = args) (calls (run evs w1)) \<and>
         listeners (run evs w1) = [] \<and>
         cleared (step (Act Abort) (run evs w1)) = cleared (run evs w1) \<and>
         timers (step (Act Abort) (run evs w1)) = timers (run evs w1) \<and>
         (Clear \<notin> set body \<and> Act Clear \<notin> set evs \<longrightarrow> \<not> cleared (run evs w1))" for evs
  proof -
    have a: "frame (run evs w1) = frame w1" using idle_run [OF w1(2), of evs] by simp
    have b: "listeners (run evs w1) = []" using inert_run [OF w1(2,3), of evs] by simp
    have c: "Act Clear \<notin> set evs \<Longrightarrow> \<not> cleared_flag (run evs w1)"
      using no_clear_idle_run [OF w1(2,3), of evs] w1(6) by simp
    show ?thesis
      using frameD [OF a] b c w1 by (simp add: cleared_def step_Act abort_no_listeners)
  qed
  from w1 r show ?thesis by blast
next
  case False
  from clamp_cases [OF False] obtain p where p: "clamp_delay (Number_or_0 d) = Fin p" by blast
  from setInterval_scheduled [OF False p, of body args t ab] obtain w1 where
    w1: "setInterval (JFunc (User body)) d args (new_world t ab) = Inr w1"
      "iinv body args p (Fin (t + p)) w1" "\<not> cleared_flag w1"
    by blast
  have r: "list_all (\<lambda>c. c = args) (calls (run evs w1)) \<and>
         listeners (run evs w1) = [] \<and>
         cleared (step (Act Abort) (run evs w1)) = cleared (run evs w1) \<and>
         timers (step (Act Abort) (run evs w1)) = timers (run evs w1) \<and>
         (Clear \<notin> set body \<and> Act Clear \<notin> set evs \<longrightarrow> \<not> cleared (run evs w1))" for evs
  proof -
    have i: "iinv body args p (Fin (t + p)) (run evs w1)" using w1(2) by (rule iinv_run)
    have c: "Clear \<notin> set body \<Longrightarrow> Act Clear \<notin> set evs \<Longrightarrow> \<not> cleared_flag (run evs w1)"
      using no_clear_run [OF w1(2), of evs] w1(3) by simp
    show ?thesis using i c by (simp add: iinv_def cleared_def step_Act abort_no_listeners)
  qed
  from w1 r show ?thesis by (auto simp: iinv_def)
qed

theorem interval_forwards_all_arguments_witness:
  "\<exists>w1. setInterval (JFunc (User [])) (Some (Fin 10)) [JObj [(''signal'', JSignal)]] (new_world 0 False)
       = Inr w1 \<and>
     list_all (\<lambda>c. c = [JObj [(''signal'', JSignal)]])
       (calls (run [Act (Elapse 10), Fire 0, Act Abort, Act (Elapse 10), Fire 1] w1)) \<and>
     calls (run [Act (Elapse 10), Fire 0, Act Abort, Act (Elapse 10), Fire 1] w1) =
       [[JObj [(''signal'', JSignal)]], [JObj [(''signal'', JSignal)]]] \<and>
     Clear \<notin> set [] \<and>
     Act Clear \<notin> set [Act (Elapse 10), Fire 0, Act Abort, Act (Elapse 10), Fire 1] \<and>
     \<not> cleared (run [Act (Elapse 10), Fire 0, Act Abort, Act (Elapse 10), Fire 1] w1)"
proof -
  let ?evs = "[Act (Elapse 10), Fire 0, Act Abort, Act (Elapse 10), Fire 1]"
  have h: "Clear \<notin> set [] \<and> Act Clear \<notin> set ?evs" by simp
  from interval_forwards_all_arguments
    [of "[]" "Some (Fin 10)" "[JObj [(''signal'', JSignal)]]" 0 False]
  obtain w1 where w1:
    "setInterval (JFunc (User [])) (Some (Fin 10)) [JObj [(''signal'', JSignal)]] (new_world 0 False)
       = Inr w1"
    "list_all (\<lambda>c. c = [JObj [(''signal'', JSignal)]]) (calls (run ?evs w1))"
    "Clear \<notin> set [] \<and> Act Clear \<notin> set ?evs \<longrightarrow> \<not> cleared (run ?evs w1)"
    by blast
  have e: "setInterval (JFunc (User [])) (Some (Fin 10)) [JObj [(''signal'', JSignal)]] (new_world 0 False)
     = Inr (projr (setInterval (JFunc (User [])) (Some (Fin 10)) [JObj [(''signal'', JSignal)]]
         (new_world 0 False)))"
    using w1(1) by simp
  have "calls (run ?evs (projr (setInterval (JFunc (User [])) (Some (Fin 10))
       [JObj [(''signal'', JSignal)]] (new_world 0 False)))) =
       [[JObj [(''signal'', JSignal)]], [JObj [(''signal'', JSignal)]]]"
    by (simp add: eval_defs)
  then have c: "calls (run ?evs w1) = [[JObj [(''signal'', JSignal)]], [JObj [(''signal'', JSignal)]]]"
    using w1(1) by simp
  from w1 h c show ?thesis by blast
qed

end
